theory Spec2Isabelle
  imports Complex_Main
begin

section \<open>Python values used by workers.py\<close>

text \<open>
  Device identifiers, commands, prompts and captured outputs are Python strings. They are
  modelled as \<open>string\<close>, one \<open>char\<close> per code point below 256. Progress increments are
  Python floats; they are modelled as exact reals, so rounding is not part of the model.
\<close>

type_synonym device = string
type_synonym command = string

text \<open>
  The exceptions a device task can raise: the two the interpreter raises in
  \<open>snapshot_task\<close> itself, and whatever the netcore library raises when a session cannot
  be opened or a command cannot be sent.
\<close>

datatype exn = KeyError string | ZeroDivisionError | NetcoreError string

subsection \<open>Insertion-ordered dictionaries\<close>

text \<open>
  A Python \<open>dict\<close> iterates in insertion order, and \<open>d[k] = v\<close> on a key that is already
  present replaces the value where the key stands. \<open>d[k]\<close> on a missing key raises
  \<open>KeyError\<close>, which is \<open>None\<close> here.
\<close>

fun py_getitem :: "('k \<times> 'v) list \<Rightarrow> 'k \<Rightarrow> 'v option" where
  "py_getitem [] k = None"
| "py_getitem ((k', v) # d) k = (if k' = k then Some v else py_getitem d k)"

fun py_setitem :: "('k \<times> 'v) list \<Rightarrow> 'k \<Rightarrow> 'v \<Rightarrow> ('k \<times> 'v) list" where
  "py_setitem [] k v = [(k, v)]"
| "py_setitem ((k', v') # d) k v =
     (if k' = k then (k, v) # d else (k', v') # py_setitem d k v)"

definition py_keys :: "('k \<times> 'v) list \<Rightarrow> 'k list" where
  "py_keys d = map fst d"

text \<open>\<open>d.update(e)\<close>: every item of \<open>e\<close>, in order, is stored into \<open>d\<close>.\<close>

fun py_update :: "('k \<times> 'v) list \<Rightarrow> ('k \<times> 'v) list \<Rightarrow> ('k \<times> 'v) list" where
  "py_update d [] = d"
| "py_update d ((k, v) # e) = py_update (py_setitem d k v) e"

subsection \<open>\<open>str.strip()\<close>\<close>

text \<open>
  \<open>str.strip()\<close> without an argument removes the whitespace at both ends of the string.
  The whitespace code points below 256 are tab, line feed, vertical tab, form feed,
  carriage return, the separators 28 to 31, space, next-line (133) and no-break space (160).
\<close>

definition py_isspace :: "char \<Rightarrow> bool" where
  "py_isspace c \<longleftrightarrow>
     (of_char c :: nat) \<in> set [9, 10, 11, 12, 13, 28, 29, 30, 31, 32, 133, 160]"

definition py_lstrip :: "string \<Rightarrow> string" where
  "py_lstrip s = dropWhile py_isspace s"

definition py_rstrip :: "string \<Rightarrow> string" where
  "py_rstrip s = rev (dropWhile py_isspace (rev s))"

definition py_strip :: "string \<Rightarrow> string" where
  "py_strip s = py_rstrip (py_lstrip s)"

section \<open>The objects of a run\<close>

text \<open>One value of \<open>output_data\<close>: \<open>{"prompt": ..., "command_output": {...}}\<close>.\<close>

record entry =
  prompt :: string
  command_output :: "(command \<times> string) list"

definition empty_entry :: entry where
  "empty_entry = \<lparr>prompt = [], command_output = []\<rparr>"

text \<open>
  The netcore library is not part of the repository. A \<open>GenericHandler\<close> object is what
  \<open>snapshot_task\<close> uses of it: its \<open>prompt\<close> attribute and its \<open>sendCommand\<close> method, which
  returns the captured text or raises. The handler may answer the same command differently
  each time, so \<open>sendCommand\<close> also takes the number of commands sent before on this handler.
\<close>

record handler =
  handler_prompt :: string
  sendCommand :: "nat \<Rightarrow> command \<Rightarrow> exn + string"

record proxy =
  hostname :: string
  username :: string
  password :: string

text \<open>
  The form the worker thread reads: the lines of the two text boxes
  (\<open>toPlainText().splitlines()\<close>), the selected output type, the output directory and the
  session dictionary.
\<close>

record form =
  devices_text_edit :: "string list"
  commands_text_edit :: "string list"
  type_combo_box :: string
  output_dir :: string
  session :: "string \<Rightarrow> string option"

record datetime =
  year :: nat
  month :: nat
  day :: nat
  hour :: nat
  minute :: nat

text \<open>
  What lies outside the repository: the constructor \<open>GenericHandler(hostname, username,
  password, proxy)\<close>, which returns a handler or raises (its first argument here numbers the
  call by the position of the device in the list, since two sessions to the same host need
  not fare alike), the clock behind \<open>datetime.now()\<close> (numbered by call), and the title-cased
  name of the directory that holds workers.py.
\<close>

record world =
  GenericHandler :: "nat \<Rightarrow> device \<Rightarrow> string \<Rightarrow> string \<Rightarrow> proxy option \<Rightarrow> exn + handler"
  now :: "nat \<Rightarrow> datetime"
  package_title :: string

text \<open>The attributes of the \<open>RunEvent\<close> object once \<open>run\<close> has set them (lines 39 to 41).\<close>

record run_event =
  the_form :: form
  the_world :: world
  devices :: "device list"
  commands :: "command list"
  output_type :: string

section \<open>snapshot\_task, statement by statement\<close>

text \<open>
  The device tasks run on the threads of a pool and share \<open>output_data\<close> and the progress
  signal. Each task is therefore modelled as a small machine whose control points are the
  statements of \<open>snapshot_task\<close> that touch shared state or the network; the constructors
  are named after the line of workers.py that the task executes next. \<open>Queued\<close> is a task
  that no worker has taken yet, \<open>Done r\<close> a task that has ended, with the exception it raised
  or with \<open>None\<close> when it returned.

  Left out: the calls of the logger (also \<open>logger.savings\<close>, which exists only inside Netmig),
  and the import of netcore at line 79, which is taken to succeed.
\<close>

datatype tstate =
    Queued
  | L81
  | L82
  | L88
  | L90
  | L107 handler
  | L108 handler
  | L110 handler
  | L113 handler nat
  | L114 handler nat string
  | L115 handler nat
  | L119 handler
  | Done "exn option"

text \<open>
  The state shared by the tasks: the \<open>output_data\<close> dictionary, the values emitted on the
  \<open>add_progress\<close> signal, and the calls made on the sessions (\<open>sendCommand\<close>, \<open>close\<close>), each
  tagged with the index of the task that made it; all in order of occurrence.
\<close>

record state =
  tasks :: "tstate list"
  output_data :: "(device \<times> entry) list"
  progress :: "real list"
  sent :: "(nat \<times> command) list"
  closed :: "nat list"

definition available_progress :: "run_event \<Rightarrow> real" where
  "available_progress re = 90 / real (length (devices re))"

definition command_progress :: "run_event \<Rightarrow> real" where
  "command_progress re = (available_progress re * 0.7) / real (length (commands re))"

text \<open>Lines 90 to 96: the proxy dictionary, built when a jump host is configured.\<close>

definition make_proxy :: "(string \<Rightarrow> string option) \<Rightarrow> exn + proxy option" where
  "make_proxy s =
     (case s ''JUMPHOST_IP'' of
        None \<Rightarrow> Inr None
      | Some ip \<Rightarrow>
          if ip = [] then Inr None
          else (case s ''JUMPHOST_USERNAME'' of
                  None \<Rightarrow> Inl (KeyError ''JUMPHOST_USERNAME'')
                | Some u \<Rightarrow>
                    (case s ''JUMPHOST_PASSWORD'' of
                       None \<Rightarrow> Inl (KeyError ''JUMPHOST_PASSWORD'')
                     | Some p \<Rightarrow> Inr (Some \<lparr>hostname = ip, username = u, password = p\<rparr>))))"

text \<open>Lines 90 to 104: the proxy, the credentials, and the call of the constructor.\<close>

definition open_session :: "run_event \<Rightarrow> nat \<Rightarrow> device \<Rightarrow> exn + handler" where
  "open_session re i dev =
     (case make_proxy (session (the_form re)) of
        Inl e \<Rightarrow> Inl e
      | Inr px \<Rightarrow>
          (case session (the_form re) ''NETWORK_USERNAME'' of
             None \<Rightarrow> Inl (KeyError ''NETWORK_USERNAME'')
           | Some u \<Rightarrow>
               (case session (the_form re) ''NETWORK_PASSWORD'' of
                  None \<Rightarrow> Inl (KeyError ''NETWORK_PASSWORD'')
                | Some p \<Rightarrow> GenericHandler (the_world re) i dev u p px)))"

text \<open>
  One statement of task \<open>i\<close>, which runs \<open>snapshot_task(dev)\<close>: the control point reached and
  the shared state left behind. A raised exception ends the task in \<open>Done (Some e)\<close>, the
  return at the end of the function in \<open>Done None\<close>.
\<close>

fun snapshot_task :: "run_event \<Rightarrow> nat \<Rightarrow> device \<Rightarrow> tstate \<Rightarrow> state \<Rightarrow> tstate \<times> state" where
  "snapshot_task re i dev Queued s = (L81, s)"
| "snapshot_task re i dev L81 s =
     (if length (devices re) = 0 then (Done (Some ZeroDivisionError), s) else (L82, s))"
| "snapshot_task re i dev L82 s =
     (L88, s\<lparr>output_data := py_setitem (output_data s) dev empty_entry\<rparr>)"
| "snapshot_task re i dev L88 s =
     (L90, s\<lparr>progress := progress s @ [available_progress re * 0.1]\<rparr>)"
| "snapshot_task re i dev L90 s =
     (case open_session re i dev of
        Inl e \<Rightarrow> (Done (Some e), s)
      | Inr h \<Rightarrow> (L107 h, s))"
| "snapshot_task re i dev (L107 h) s =
     (case py_getitem (output_data s) dev of
        None \<Rightarrow> (Done (Some (KeyError dev)), s)
      | Some en \<Rightarrow>
          (L108 h, s\<lparr>output_data :=
             py_setitem (output_data s) dev (en\<lparr>prompt := handler_prompt h\<rparr>)\<rparr>))"
| "snapshot_task re i dev (L108 h) s =
     (L110 h, s\<lparr>progress := progress s @ [available_progress re * 0.2]\<rparr>)"
| "snapshot_task re i dev (L110 h) s =
     (if length (commands re) = 0 then (Done (Some ZeroDivisionError), s)
      else (L113 h 0, s))"
| "snapshot_task re i dev (L113 h k) s =
     (case sendCommand h k (commands re ! k) of
        Inl e \<Rightarrow> (Done (Some e), s\<lparr>sent := sent s @ [(i, commands re ! k)]\<rparr>)
      | Inr raw \<Rightarrow> (L114 h k (py_strip raw), s\<lparr>sent := sent s @ [(i, commands re ! k)]\<rparr>))"
| "snapshot_task re i dev (L114 h k result) s =
     (case py_getitem (output_data s) dev of
        None \<Rightarrow> (Done (Some (KeyError dev)), s)
      | Some en \<Rightarrow>
          (L115 h k, s\<lparr>output_data :=
             py_setitem (output_data s) dev
               (en\<lparr>command_output :=
                  py_setitem (command_output en) (commands re ! k) result\<rparr>)\<rparr>))"
| "snapshot_task re i dev (L115 h k) s =
     (if Suc k < length (commands re) then L113 h (Suc k) else L119 h,
      s\<lparr>progress := progress s @ [command_progress re]\<rparr>)"
| "snapshot_task re i dev (L119 h) s = (Done None, s\<lparr>closed := closed s @ [i]\<rparr>)"
| "snapshot_task re i dev (Done r) s = (Done r, s)"

section \<open>thread\_executor: the pool\<close>

fun queued :: "tstate \<Rightarrow> bool" where
  "queued Queued = True"
| "queued _ = False"

fun finished :: "tstate \<Rightarrow> bool" where
  "finished (Done r) = True"
| "finished _ = False"

definition running :: "tstate \<Rightarrow> bool" where
  "running t \<longleftrightarrow> \<not> queued t \<and> \<not> finished t"

definition max_workers :: nat where
  "max_workers = 8"

text \<open>
  Task \<open>i\<close> can take a step when it is running, or when it is the first of the queue and
  fewer than \<open>max_workers\<close> tasks are running (a worker is free to take it).
\<close>

definition runnable :: "tstate list \<Rightarrow> nat \<Rightarrow> bool" where
  "runnable ts i \<longleftrightarrow>
     i < length ts \<and> \<not> finished (ts ! i) \<and>
     (queued (ts ! i) \<longrightarrow>
        list_all (\<lambda>t. \<not> queued t) (take i ts) \<and> length (filter running ts) < max_workers)"

definition step :: "run_event \<Rightarrow> nat \<Rightarrow> state \<Rightarrow> state" where
  "step re i s =
     (if runnable (tasks s) i \<and> i < length (devices re) then
        (case snapshot_task re i (devices re ! i) (tasks s ! i) s of
           (t, s') \<Rightarrow> s'\<lparr>tasks := (tasks s)[i := t]\<rparr>)
      else s)"

text \<open>
  An interleaving of the tasks is a list of task indices: the task named takes its next
  statement (nothing happens when it cannot).
\<close>

fun exec :: "run_event \<Rightarrow> nat list \<Rightarrow> state \<Rightarrow> state" where
  "exec re [] s = s"
| "exec re (i # sched) s = exec re sched (step re i s)"

text \<open>
  \<open>executor.shutdown(wait=True)\<close> returns when every task has ended. After the given
  interleaving, the tasks still unfinished are run to their end, one after the other in
  submission order; no task takes more than \<open>task_bound\<close> steps.
\<close>

definition task_bound :: "run_event \<Rightarrow> nat" where
  "task_bound re = 3 * length (commands re) + 12"

definition drain :: "run_event \<Rightarrow> nat list" where
  "drain re = concat (map (\<lambda>i. replicate (task_bound re) i) [0..<length (devices re)])"

text \<open>
  \<open>future.exception()\<close> of an ended task. On a task that has not ended the call would wait;
  when it is made every task has ended (lemma \<open>all_finished\<close>).
\<close>

fun future_exception :: "tstate \<Rightarrow> exn option" where
  "future_exception (Done r) = r"
| "future_exception _ = None"

text \<open>
  Lines 59 to 62: the dictionary of futures, keyed by device; the future of a task is
  its index.
\<close>

fun submit_all :: "device list \<Rightarrow> nat \<Rightarrow> (device \<times> nat) list \<Rightarrow> (device \<times> nat) list" where
  "submit_all [] i futures = futures"
| "submit_all (dev # devs) i futures = submit_all devs (Suc i) (py_setitem futures dev i)"

text \<open>Lines 67 to 70: the exceptions logged, in order.\<close>

fun log_exceptions :: "tstate list \<Rightarrow> (device \<times> nat) list \<Rightarrow> (device \<times> exn) list" where
  "log_exceptions ts [] = []"
| "log_exceptions ts ((dev, i) # futures) =
     (case future_exception (ts ! i) of
        None \<Rightarrow> log_exceptions ts futures
      | Some e \<Rightarrow> (dev, e) # log_exceptions ts futures)"

text \<open>
  Lines 57 to 62: 9 is emitted, and one task per device is submitted, in the order of the
  list.
\<close>

definition initial :: "run_event \<Rightarrow> state" where
  "initial re =
     \<lparr>tasks = replicate (length (devices re)) Queued, output_data = [],
      progress = [9], sent = [], closed = []\<rparr>"

text \<open>
  \<open>thread_executor\<close> under the interleaving \<open>sched\<close>: the state when the pool has shut down,
  and the error log.
\<close>

definition thread_executor :: "run_event \<Rightarrow> nat list \<Rightarrow> state \<times> (device \<times> exn) list" where
  "thread_executor re sched =
     (let s = exec re (sched @ drain re) (initial re)
      in (s, log_exceptions (tasks s) (submit_all (devices re) 0 [])))"

section \<open>generate\_report\<close>

text \<open>\<open>os.path.join\<close> of a directory and one component, on POSIX paths.\<close>

definition os_path_join :: "string \<Rightarrow> string \<Rightarrow> string" where
  "os_path_join a b =
     (if b \<noteq> [] \<and> hd b = CHR ''/'' then b
      else if a = [] \<or> last a = CHR ''/'' then a @ b
      else a @ ''/'' @ b)"

text \<open>\<open>strftime\<close>: decimal fields padded with zeros, and the English month names.\<close>

definition digit :: "nat \<Rightarrow> char" where
  "digit d = ''0123456789'' ! (d mod 10)"

definition digits2 :: "nat \<Rightarrow> string" where
  "digits2 n = [digit (n div 10), digit n]"

definition digits4 :: "nat \<Rightarrow> string" where
  "digits4 n = [digit (n div 1000), digit (n div 100), digit (n div 10), digit n]"

definition month_names :: "string list" where
  "month_names =
     [''January'', ''February'', ''March'', ''April'', ''May'', ''June'', ''July'',
      ''August'', ''September'', ''October'', ''November'', ''December'']"

text \<open>\<open>strftime('%Y-%m-%d')\<close>\<close>

definition strftime_date :: "datetime \<Rightarrow> string" where
  "strftime_date t = digits4 (year t) @ ''-'' @ digits2 (month t) @ ''-'' @ digits2 (day t)"

text \<open>\<open>strftime("%B %d_%H.%M")\<close>\<close>

definition strftime_stamp :: "datetime \<Rightarrow> string" where
  "strftime_stamp t =
     month_names ! (month t - 1) @ '' '' @ digits2 (day t) @ ''_'' @ digits2 (hour t)
       @ ''.'' @ digits2 (minute t)"

definition newline :: string where
  "newline = [CHR 0x0A]"

text \<open>Lines 135 and 136: the loop that writes one device's file; \<open>file\<close> is what has been written.\<close>

fun write_commands :: "string \<Rightarrow> (command \<times> string) list \<Rightarrow> string \<Rightarrow> string" where
  "write_commands p [] file = file"
| "write_commands p ((cmd, out) # items) file =
     write_commands p items
       (file @ p @ cmd @ newline @ out @ newline @ replicate 79 CHR ''-'' @ newline)"

text \<open>
  Lines 129 to 136: one file per item of \<open>output_data\<close>. \<open>n\<close> counts the calls of
  \<open>datetime.now()\<close>; \<open>files\<close> are the files written so far, as path and content, in order
  (a later file with the path of an earlier one replaces it on disk).
\<close>

fun write_text_files ::
  "run_event \<Rightarrow> nat \<Rightarrow> (device \<times> entry) list \<Rightarrow> (string \<times> string) list \<Rightarrow> (string \<times> string) list"
where
  "write_text_files re n [] files = files"
| "write_text_files re n ((dev, data) # items) files =
     (let filename = butlast (prompt data) @ ''_'' @ strftime_date (now (the_world re) n) @ ''.txt'';
          filepath = os_path_join (output_dir (the_form re)) filename
      in write_text_files re (Suc n) items
           (files @ [(filepath, write_commands (prompt data) (command_output data) [])]))"

text \<open>Lines 141 to 143: the rows of the sheet, keyed from \<open>idx\<close> on.\<close>

fun dump_rows ::
  "nat \<Rightarrow> (device \<times> entry) list \<Rightarrow> (nat \<times> (string \<times> string) list) list
     \<Rightarrow> (nat \<times> (string \<times> string) list) list"
where
  "dump_rows idx [] dump_data = dump_data"
| "dump_rows idx ((dev, data) # items) dump_data =
     dump_rows (Suc idx) items
       (py_setitem dump_data idx
          (py_update [(''Device'', butlast (prompt data))] (command_output data)))"

text \<open>
  What \<open>generate_report\<close> hands to the file system or to the workbook writer of netcore:
  the text files, or the path of the workbook, the name of its sheet and the rows dumped.
\<close>

datatype report =
    TextFiles "(string \<times> string) list"
  | Workbook string string "(nat \<times> (string \<times> string) list) list"

definition generate_report :: "run_event \<Rightarrow> (device \<times> entry) list \<Rightarrow> report" where
  "generate_report re od =
     (if output_type re = ''Text'' then TextFiles (write_text_files re 0 od [])
      else
        (let timestamp = strftime_stamp (now (the_world re) 0);
             filename = package_title (the_world re) @ ''_'' @ timestamp @ ''.xlsx'';
             filepath = os_path_join (output_dir (the_form re)) filename
         in Workbook filepath ''Snapshot'' (dump_rows 1 od [])))"

section \<open>run\<close>

text \<open>Lines 39 to 41: the non-empty lines of the two text boxes, and the output type.\<close>

definition make_run_event :: "form \<Rightarrow> world \<Rightarrow> run_event" where
  "make_run_event f w =
     \<lparr>the_form = f, the_world = w,
      devices = filter (\<lambda>l. l \<noteq> []) (devices_text_edit f),
      commands = filter (\<lambda>l. l \<noteq> []) (commands_text_edit f),
      output_type = type_combo_box f\<rparr>"

text \<open>
  What a run leaves: the final shared state, the error log and the report. The directory of
  line 37 and the files of the report are taken to be writable.
\<close>

record outcome =
  final :: state
  errors :: "(device \<times> exn) list"
  written :: report

text \<open>Lines 45 to 50, for the attributes \<open>re\<close> and the interleaving \<open>sched\<close> of the device tasks.\<close>

definition run_batch :: "run_event \<Rightarrow> nat list \<Rightarrow> outcome" where
  "run_batch re sched =
     (case thread_executor re sched of
        (s, logged) \<Rightarrow>
          (let rep = generate_report re (output_data s)
           in \<lparr>final = s\<lparr>progress := progress s @ [2]\<rparr>, errors = logged, written = rep\<rparr>))"

definition run :: "form \<Rightarrow> world \<Rightarrow> nat list \<Rightarrow> outcome" where
  "run f w sched = run_batch (make_run_event f w) sched"

section \<open>Observations on a run\<close>

text \<open>
  What the claims observe of a finished batch: the commands task \<open>i\<close> has sent, the number of
  times it has closed its session, and the sum of everything emitted on the progress signal
  over a whole run.
\<close>

definition sent_by :: "state \<Rightarrow> nat \<Rightarrow> command list" where
  "sent_by s i = map snd (filter (\<lambda>p. fst p = i) (sent s))"

definition closed_by :: "state \<Rightarrow> nat \<Rightarrow> nat" where
  "closed_by s i = count_list (closed s) i"

definition total_progress :: "run_event \<Rightarrow> nat list \<Rightarrow> real" where
  "total_progress re sched = sum_list (progress (final (run_batch re sched)))"

text \<open>
  The values that the tasks emit on the progress signal, each tagged with the index of the
  task whose statement emitted it, in order of occurrence: what a step of task \<open>j\<close> appends to
  \<open>progress\<close> is emitted by task \<open>j\<close>. \<open>task_progress\<close> is what task \<open>i\<close> emits over the whole
  run.
\<close>

fun emissions :: "run_event \<Rightarrow> nat list \<Rightarrow> state \<Rightarrow> (nat \<times> real) list" where
  "emissions re [] s = []"
| "emissions re (j # sched) s =
     map (Pair j) (drop (length (progress s)) (progress (step re j s)))
       @ emissions re sched (step re j s)"

definition emitted :: "run_event \<Rightarrow> nat list \<Rightarrow> (nat \<times> real) list" where
  "emitted re sched = emissions re (sched @ drain re) (initial re)"

definition task_progress :: "run_event \<Rightarrow> nat list \<Rightarrow> nat \<Rightarrow> real list" where
  "task_progress re sched i = map snd (filter (\<lambda>p. fst p = i) (emitted re sched))"

text \<open>
  Position \<open>i\<close> of the device list holds an identifier that the list holds nowhere else.
\<close>

definition unique :: "run_event \<Rightarrow> nat \<Rightarrow> bool" where
  "unique re i \<longleftrightarrow> (\<forall>j<length (devices re). devices re ! j = devices re ! i \<longrightarrow> j = i)"

text \<open>
  No session to device \<open>d\<close> opens: every task of the batch that targets \<open>d\<close> fails at lines 90 to 104.
\<close>

definition never_opens :: "run_event \<Rightarrow> device \<Rightarrow> bool" where
  "never_opens re d \<longleftrightarrow>
     (\<forall>j<length (devices re). devices re ! j = d \<longrightarrow> isl (open_session re j d))"

text \<open>
  Whether the session of task \<open>i\<close> fails to open.
\<close>

definition open_fails :: "run_event \<Rightarrow> nat \<Rightarrow> bool" where
  "open_fails re i \<longleftrightarrow> isl (open_session re i (devices re ! i))"

text \<open>
  The command loop of a handler stops after \<open>m\<close> commands: the list is exhausted, or command
  \<open>m\<close> raises.
\<close>

definition stops_at :: "handler \<Rightarrow> command list \<Rightarrow> nat \<Rightarrow> bool" where
  "stops_at h cs m \<longleftrightarrow> m = length cs \<or> (m < length cs \<and> isl (sendCommand h m (cs ! m)))"

text \<open>
  The keys of a dictionary to which the elements of a list are stored one after the other: each
  element where it occurs first.
\<close>

definition add_key :: "'a list \<Rightarrow> 'a \<Rightarrow> 'a list" where
  "add_key ks k = (if k \<in> set ks then ks else ks @ [k])"

definition first_occurrences :: "'a list \<Rightarrow> 'a list" where
  "first_occurrences xs = foldl add_key [] xs"

text \<open>
  The control points before and after the insertion of line 82, and the interleavings in
  which the tasks execute line 82 in submission order: whenever a task is about to insert, all
  tasks submitted before it have inserted.
\<close>

fun past_insert :: "tstate \<Rightarrow> bool" where
  "past_insert Queued = False"
| "past_insert L81 = False"
| "past_insert L82 = False"
| "past_insert _ = True"

fun at_insert :: "tstate \<Rightarrow> bool" where
  "at_insert L82 = True"
| "at_insert _ = False"

fun ordered_inserts :: "run_event \<Rightarrow> nat list \<Rightarrow> state \<Rightarrow> bool" where
  "ordered_inserts re [] s = True"
| "ordered_inserts re (i # sched) s =
     ((runnable (tasks s) i \<and> i < length (devices re) \<and> at_insert (tasks s ! i)
         \<longrightarrow> list_all past_insert (take i (tasks s)))
      \<and> ordered_inserts re sched (step re i s))"

text \<open>
  The tasks that execute line 82 under an interleaving, in the order in which they do:
  a step of task \<open>i\<close> is an execution of line 82 when the task can run and stands at that line.
\<close>

fun inserts :: "run_event \<Rightarrow> nat list \<Rightarrow> state \<Rightarrow> nat list" where
  "inserts re [] s = []"
| "inserts re (i # sched) s =
     (if runnable (tasks s) i \<and> i < length (devices re) \<and> at_insert (tasks s ! i) then [i] else [])
       @ inserts re sched (step re i s)"

definition insertion_order :: "run_event \<Rightarrow> nat list \<Rightarrow> nat list" where
  "insertion_order re sched = inserts re (sched @ drain re) (initial re)"

section \<open>The report in the words of the specification\<close>

text \<open>
  Text mode: per command the prompt, the command, a newline, the output, a newline, a line of
  79 dashes and a newline; the file is named after the prompt without its last character, an
  underscore and the date as YYYY-MM-DD. Tabular mode: a row starts with the column
  \<open>Device\<close>, the prompt without its last character, followed by one column per command.
\<close>

definition separator_line :: string where
  "separator_line = replicate 79 CHR ''-''"

definition text_section :: "string \<Rightarrow> command \<times> string \<Rightarrow> string" where
  "text_section p item = p @ fst item @ newline @ snd item @ newline @ separator_line @ newline"

definition text_body :: "entry \<Rightarrow> string" where
  "text_body data = concat (map (text_section (prompt data)) (command_output data))"

definition text_filename :: "entry \<Rightarrow> datetime \<Rightarrow> string" where
  "text_filename data t =
     butlast (prompt data) @ ''_'' @ digits4 (year t) @ ''-'' @ digits2 (month t) @ ''-''
       @ digits2 (day t) @ ''.txt''"

definition table_row :: "entry \<Rightarrow> (string \<times> string) list" where
  "table_row data = py_update [(''Device'', butlast (prompt data))] (command_output data)"

section \<open>What a task still has to do\<close>

text \<open>
  The proofs follow a task through an arbitrary interleaving by what it still has to do. From
  a control point on, a task runs the same statements whatever the other tasks do, so the
  exception it will end with, the progress it will still emit, the commands it will still send
  and the number of times it will still close its session are functions of the control point
  alone. \<open>cmd_loop\<close> runs the loop of lines 111 to 117 from command \<open>k\<close> on: the number of
  commands that complete, and the exception that ends the loop if one does. \<open>loop_output\<close>
  is what the loop leaves in the \<open>command_output\<close> dictionary \<open>co\<close>.
\<close>

fun cmd_loop :: "handler \<Rightarrow> nat \<Rightarrow> command list \<Rightarrow> nat \<times> exn option" where
  "cmd_loop h k [] = (0, None)"
| "cmd_loop h k (c # cs) =
     (case sendCommand h k c of
        Inl e \<Rightarrow> (0, Some e)
      | Inr raw \<Rightarrow> (case cmd_loop h (Suc k) cs of (m, r) \<Rightarrow> (Suc m, r)))"

fun loop_output ::
  "handler \<Rightarrow> nat \<Rightarrow> command list \<Rightarrow> (command \<times> string) list \<Rightarrow> (command \<times> string) list" where
  "loop_output h k [] co = co"
| "loop_output h k (c # cs) co =
     (case sendCommand h k c of
        Inl e \<Rightarrow> co
      | Inr raw \<Rightarrow> loop_output h (Suc k) cs (py_setitem co c (py_strip raw)))"

record rest =
  r_exn :: "exn option"
  r_progress :: real
  r_sent :: "command list"
  r_closed :: nat

definition emit :: "real \<Rightarrow> rest \<Rightarrow> rest" where
  "emit x r = r\<lparr>r_progress := x + r_progress r\<rparr>"

definition raised :: "exn \<Rightarrow> rest" where
  "raised e = \<lparr>r_exn = Some e, r_progress = 0, r_sent = [], r_closed = 0\<rparr>"

definition rest_loop :: "run_event \<Rightarrow> handler \<Rightarrow> nat \<Rightarrow> rest" where
  "rest_loop re h k =
     (case cmd_loop h k (drop k (commands re)) of
        (m, r) \<Rightarrow>
          \<lparr>r_exn = r, r_progress = real m * command_progress re,
           r_sent = take (m + (case r of None \<Rightarrow> 0 | Some e \<Rightarrow> 1)) (drop k (commands re)),
           r_closed = (case r of None \<Rightarrow> 1 | Some e \<Rightarrow> 0)\<rparr>)"

definition rest_L110 :: "run_event \<Rightarrow> handler \<Rightarrow> rest" where
  "rest_L110 re h =
     (if length (commands re) = 0 then raised ZeroDivisionError else rest_loop re h 0)"

definition rest_L90 :: "run_event \<Rightarrow> nat \<Rightarrow> device \<Rightarrow> rest" where
  "rest_L90 re i dev =
     (case open_session re i dev of
        Inl e \<Rightarrow> raised e
      | Inr h \<Rightarrow> emit (available_progress re * 0.2) (rest_L110 re h))"

fun the_rest :: "run_event \<Rightarrow> nat \<Rightarrow> device \<Rightarrow> tstate \<Rightarrow> rest" where
  "the_rest re i dev Queued = emit (available_progress re * 0.1) (rest_L90 re i dev)"
| "the_rest re i dev L81 = emit (available_progress re * 0.1) (rest_L90 re i dev)"
| "the_rest re i dev L82 = emit (available_progress re * 0.1) (rest_L90 re i dev)"
| "the_rest re i dev L88 = emit (available_progress re * 0.1) (rest_L90 re i dev)"
| "the_rest re i dev L90 = rest_L90 re i dev"
| "the_rest re i dev (L107 h) = emit (available_progress re * 0.2) (rest_L110 re h)"
| "the_rest re i dev (L108 h) = emit (available_progress re * 0.2) (rest_L110 re h)"
| "the_rest re i dev (L110 h) = rest_L110 re h"
| "the_rest re i dev (L113 h k) = rest_loop re h k"
| "the_rest re i dev (L114 h k res) = emit (command_progress re) (rest_loop re h (Suc k))"
| "the_rest re i dev (L115 h k) = emit (command_progress re) (rest_loop re h (Suc k))"
| "the_rest re i dev (L119 h) = \<lparr>r_exn = None, r_progress = 0, r_sent = [], r_closed = 1\<rparr>"
| "the_rest re i dev (Done r) = \<lparr>r_exn = r, r_progress = 0, r_sent = [], r_closed = 0\<rparr>"

text \<open>
  The entry of \<open>output_data\<close> that a task leaves behind when no other task writes to the
  same key, from its control point and the entry as it stands.
\<close>

definition entry_loop :: "run_event \<Rightarrow> handler \<Rightarrow> nat \<Rightarrow> entry \<Rightarrow> entry" where
  "entry_loop re h k en =
     en\<lparr>command_output := loop_output h k (drop k (commands re)) (command_output en)\<rparr>"

definition entry_L110 :: "run_event \<Rightarrow> handler \<Rightarrow> entry \<Rightarrow> entry" where
  "entry_L110 re h en = (if length (commands re) = 0 then en else entry_loop re h 0 en)"

definition entry_L90 :: "run_event \<Rightarrow> nat \<Rightarrow> device \<Rightarrow> entry \<Rightarrow> entry" where
  "entry_L90 re i dev en =
     (case open_session re i dev of
        Inl e \<Rightarrow> en
      | Inr h \<Rightarrow> entry_L110 re h (en\<lparr>prompt := handler_prompt h\<rparr>))"

fun rest_entry :: "run_event \<Rightarrow> nat \<Rightarrow> device \<Rightarrow> tstate \<Rightarrow> entry \<Rightarrow> entry" where
  "rest_entry re i dev Queued en = entry_L90 re i dev empty_entry"
| "rest_entry re i dev L81 en = entry_L90 re i dev empty_entry"
| "rest_entry re i dev L82 en = entry_L90 re i dev empty_entry"
| "rest_entry re i dev L88 en = entry_L90 re i dev en"
| "rest_entry re i dev L90 en = entry_L90 re i dev en"
| "rest_entry re i dev (L107 h) en = entry_L110 re h (en\<lparr>prompt := handler_prompt h\<rparr>)"
| "rest_entry re i dev (L108 h) en = entry_L110 re h en"
| "rest_entry re i dev (L110 h) en = entry_L110 re h en"
| "rest_entry re i dev (L113 h k) en = entry_loop re h k en"
| "rest_entry re i dev (L114 h k res) en =
     entry_loop re h (Suc k)
       (en\<lparr>command_output := py_setitem (command_output en) (commands re ! k) res\<rparr>)"
| "rest_entry re i dev (L115 h k) en = entry_loop re h (Suc k) en"
| "rest_entry re i dev (L119 h) en = en"
| "rest_entry re i dev (Done r) en = en"

definition cur :: "state \<Rightarrow> device \<Rightarrow> entry" where
  "cur s dev = (case py_getitem (output_data s) dev of None \<Rightarrow> empty_entry | Some en \<Rightarrow> en)"

text \<open>
  The share of the progress that task \<open>i\<close> emits over its whole life, and the progress the
  unfinished tasks of a state still have to emit.
\<close>

definition share :: "run_event \<Rightarrow> nat \<Rightarrow> real" where
  "share re i = r_progress (the_rest re i (devices re ! i) Queued)"

definition pending :: "run_event \<Rightarrow> tstate list \<Rightarrow> real" where
  "pending re ts = (\<Sum>i<length (devices re). r_progress (the_rest re i (devices re ! i) (ts ! i)))"

section \<open>Invariants of the pool\<close>

text \<open>
  The number of statements a task has left at most; the queue is first-in first-out, so the
  queued tasks are the last of the list; \<open>drain_from re k\<close> is the part of \<open>drain\<close> that runs
  the tasks from \<open>k\<close> on.
\<close>

fun steps_left :: "run_event \<Rightarrow> tstate \<Rightarrow> nat" where
  "steps_left re Queued = 3 * length (commands re) + 12"
| "steps_left re L81 = 3 * length (commands re) + 11"
| "steps_left re L82 = 3 * length (commands re) + 10"
| "steps_left re L88 = 3 * length (commands re) + 9"
| "steps_left re L90 = 3 * length (commands re) + 8"
| "steps_left re (L107 h) = 3 * length (commands re) + 7"
| "steps_left re (L108 h) = 3 * length (commands re) + 6"
| "steps_left re (L110 h) = 3 * length (commands re) + 5"
| "steps_left re (L113 h k) = 3 * (length (commands re) - k) + 4"
| "steps_left re (L114 h k r) = 3 * (length (commands re) - k) + 3"
| "steps_left re (L115 h k) = 3 * (length (commands re) - k) + 2"
| "steps_left re (L119 h) = 1"
| "steps_left re (Done r) = 0"

definition fifo :: "tstate list \<Rightarrow> bool" where
  "fifo ts \<longleftrightarrow> (\<forall>i j. i < j \<and> j < length ts \<and> queued (ts ! i) \<longrightarrow> queued (ts ! j))"

definition drain_from :: "run_event \<Rightarrow> nat \<Rightarrow> nat list" where
  "drain_from re k = concat (map (\<lambda>i. replicate (task_bound re) i) [k..<length (devices re)])"

text \<open>
  Inside the loop the command index is in range, and a task that has executed line 82 finds
  its key in \<open>output_data\<close> (no statement removes a key), so lines 107 and 114 never raise
  \<open>KeyError\<close>.
\<close>

fun in_loop :: "run_event \<Rightarrow> tstate \<Rightarrow> bool" where
  "in_loop re (L113 h k) = (k < length (commands re))"
| "in_loop re (L114 h k res) = (k < length (commands re))"
| "in_loop re (L115 h k) = (k < length (commands re))"
| "in_loop re _ = True"

definition inv1 :: "run_event \<Rightarrow> state \<Rightarrow> bool" where
  "inv1 re s \<longleftrightarrow>
     length (tasks s) = length (devices re) \<and>
     (\<forall>i<length (devices re).
        in_loop re (tasks s ! i) \<and>
        (past_insert (tasks s ! i) \<longrightarrow> devices re ! i \<in> set (py_keys (output_data s))))"

text \<open>
  What has happened so far together with what is still to come is what was to come at the
  start: for the progress of the whole batch, and for the exception, the commands sent and the
  sessions closed of every task.
\<close>

definition inv2 :: "run_event \<Rightarrow> state \<Rightarrow> bool" where
  "inv2 re s \<longleftrightarrow>
     sum_list (progress s) + pending re (tasks s) = 9 + pending re (replicate (length (devices re)) Queued) \<and>
     (\<forall>i<length (devices re).
        r_exn (the_rest re i (devices re ! i) (tasks s ! i)) =
          r_exn (the_rest re i (devices re ! i) Queued) \<and>
        sent_by s i @ r_sent (the_rest re i (devices re ! i) (tasks s ! i)) =
          r_sent (the_rest re i (devices re ! i) Queued) \<and>
        closed_by s i + r_closed (the_rest re i (devices re ! i) (tasks s ! i)) =
          r_closed (the_rest re i (devices re ! i) Queued))"

text \<open>
  The same for the entry of a device that is listed once.
\<close>

definition inv3 :: "run_event \<Rightarrow> nat \<Rightarrow> state \<Rightarrow> bool" where
  "inv3 re i s \<longleftrightarrow>
     rest_entry re i (devices re ! i) (tasks s ! i) (cur s (devices re ! i)) =
       entry_L90 re i (devices re ! i) empty_entry"

text \<open>
  The keys of \<open>output_data\<close> are distinct device identifiers; when the insertions come in
  submission order, they are the first occurrences among the devices of the tasks that have
  inserted, which form an initial segment of the list.
\<close>

definition inv_keys :: "run_event \<Rightarrow> state \<Rightarrow> bool" where
  "inv_keys re s \<longleftrightarrow>
     distinct (py_keys (output_data s)) \<and>
     set (py_keys (output_data s)) \<subseteq> set (devices re)"

definition inv_order :: "run_event \<Rightarrow> state \<Rightarrow> bool" where
  "inv_order re s \<longleftrightarrow>
     (\<exists>m\<le>length (devices re).
        (\<forall>j<length (devices re). past_insert (tasks s ! j) \<longleftrightarrow> j < m) \<and>
        py_keys (output_data s) = first_occurrences (take m (devices re)))"

text \<open>
  Every \<open>command_output\<close> dictionary has distinct keys, all of them commands of the batch.
\<close>

definition good_entry :: "run_event \<Rightarrow> entry \<Rightarrow> bool" where
  "good_entry re en \<longleftrightarrow>
     distinct (py_keys (command_output en)) \<and>
     set (py_keys (command_output en)) \<subseteq> set (commands re)"

definition inv_entries :: "run_event \<Rightarrow> state \<Rightarrow> bool" where
  "inv_entries re s \<longleftrightarrow> (\<forall>p\<in>set (output_data s). good_entry re (snd p))"

text \<open>
  While no session to \<open>d\<close> opens, no task for \<open>d\<close> gets past line 104, and the entry of \<open>d\<close> is
  absent or empty.
\<close>

fun pre_open :: "tstate \<Rightarrow> bool" where
  "pre_open Queued = True"
| "pre_open L81 = True"
| "pre_open L82 = True"
| "pre_open L88 = True"
| "pre_open L90 = True"
| "pre_open (Done r) = True"
| "pre_open _ = False"

definition inv_fail :: "run_event \<Rightarrow> device \<Rightarrow> state \<Rightarrow> bool" where
  "inv_fail re d s \<longleftrightarrow>
     (\<forall>j<length (devices re). devices re ! j = d \<longrightarrow> pre_open (tasks s ! j)) \<and>
     (py_getitem (output_data s) d = None \<or> py_getitem (output_data s) d = Some empty_entry)"

text \<open>
  What the statement at a control point emits on the progress signal (lines 88, 108 and 115),
  and the control points of a task that has not yet executed line 88.
\<close>

fun emits :: "run_event \<Rightarrow> tstate \<Rightarrow> real list" where
  "emits re L88 = [available_progress re * 0.1]"
| "emits re (L108 h) = [available_progress re * 0.2]"
| "emits re (L115 h k) = [command_progress re]"
| "emits re _ = []"

fun before88 :: "tstate \<Rightarrow> bool" where
  "before88 Queued = True"
| "before88 L81 = True"
| "before88 L82 = True"
| "before88 L88 = True"
| "before88 _ = False"

section \<open>Example batches\<close>

text \<open>
  Concrete forms, handlers and batches on which the theorems below are instantiated and the
  model is evaluated.
\<close>

definition demo_session :: "string \<Rightarrow> string option" where
  "demo_session = [''NETWORK_USERNAME'' \<mapsto> ''admin'', ''NETWORK_PASSWORD'' \<mapsto> ''secret'']"

definition demo_now :: "nat \<Rightarrow> datetime" where
  "demo_now n = \<lparr>year = 2026, month = 11, day = 4, hour = 9, minute = 5\<rparr>"

definition demo_form :: "string list \<Rightarrow> string list \<Rightarrow> string \<Rightarrow> form" where
  "demo_form devs cmds ty =
     \<lparr>devices_text_edit = devs, commands_text_edit = cmds, type_combo_box = ty,
      output_dir = ''/out'', session = demo_session\<rparr>"

definition demo_world :: "(nat \<Rightarrow> device \<Rightarrow> exn + handler) \<Rightarrow> world" where
  "demo_world gh =
     \<lparr>GenericHandler = (\<lambda>i dev u p px. gh i dev), now = demo_now, package_title = ''Snapshot''\<rparr>"

text \<open>A router that answers every command with \<open>Output\<close>.\<close>

definition router1 :: handler where
  "router1 = \<lparr>handler_prompt = ''router1#'', sendCommand = (\<lambda>k c. Inr ''Output'')\<rparr>"

text \<open>A device whose output comes with blanks at both ends.\<close>

definition padded :: handler where
  "padded = \<lparr>handler_prompt = ''r1#'', sendCommand = (\<lambda>k c. Inr ''  up  '')\<rparr>"

text \<open>Devices on which the first, respectively the third, command times out.\<close>

definition flaky :: handler where
  "flaky =
     \<lparr>handler_prompt = ''r2#'',
      sendCommand = (\<lambda>k c. if k = 0 then Inl (NetcoreError ''timeout'') else Inr ''ok'')\<rparr>"

definition flaky3 :: handler where
  "flaky3 =
     \<lparr>handler_prompt = ''r3#'',
      sendCommand = (\<lambda>k c. if k = 2 then Inl (NetcoreError ''timeout'') else Inr ''ok'')\<rparr>"

text \<open>Device \<open>A\<close> answers \<open>X\<close>; no session opens to any other device.\<close>

definition handler_A :: handler where
  "handler_A = \<lparr>handler_prompt = ''A#'', sendCommand = (\<lambda>k c. Inr ''X'')\<rparr>"

definition only_A :: "nat \<Rightarrow> device \<Rightarrow> exn + handler" where
  "only_A i dev = (if dev = ''A'' then Inr handler_A else Inl (NetcoreError ''unreachable''))"

definition batch_twice :: run_event where
  "batch_twice =
     make_run_event (demo_form [''a'', ''a''] [''show version''] ''Text'')
       (demo_world (\<lambda>i dev. Inr router1))"

definition batch_two :: run_event where
  "batch_two =
     make_run_event (demo_form [''a'', ''b''] [''show version''] ''Text'')
       (demo_world (\<lambda>i dev. Inr router1))"

definition batch_one :: run_event where
  "batch_one =
     make_run_event (demo_form [''10.0.0.1''] [''show ip int brief''] ''Text'')
       (demo_world (\<lambda>i dev. Inr router1))"

definition batch_down :: run_event where
  "batch_down =
     make_run_event (demo_form [''10.0.0.1''] [''show version''] ''Text'')
       (demo_world (\<lambda>i dev. Inl (NetcoreError ''unreachable'')))"

definition batch_AB :: run_event where
  "batch_AB =
     make_run_event (demo_form [''A'', ''B''] [''show version''] ''Excel'') (demo_world only_A)"

definition batch_Device :: run_event where
  "batch_Device =
     make_run_event (demo_form [''A''] [''Device''] ''Excel'') (demo_world only_A)"

definition batch_padded :: run_event where
  "batch_padded =
     make_run_event (demo_form [''r1''] [''show clock''] ''Text'')
       (demo_world (\<lambda>i dev. Inr padded))"

definition batch_flaky :: run_event where
  "batch_flaky =
     make_run_event (demo_form [''r2''] [''show version''] ''Text'')
       (demo_world (\<lambda>i dev. Inr flaky))"

definition batch_repeat :: run_event where
  "batch_repeat =
     make_run_event (demo_form [''r3''] [''show clock'', ''show clock'', ''show version''] ''Text'')
       (demo_world (\<lambda>i dev. Inr flaky3))"

definition batch_nocmd :: run_event where
  "batch_nocmd =
     make_run_event (demo_form [''a'', ''''] [''''] ''Text'') (demo_world (\<lambda>i dev. Inr router1))"

text \<open>
  A device listed twice: the first session times out on its first command, respectively
  fails to open, and the second session works.
\<close>

definition batch_again :: run_event where
  "batch_again =
     make_run_event (demo_form [''a'', ''a''] [''show version''] ''Text'')
       (demo_world (\<lambda>i dev. if i = 0 then Inr flaky else Inr router1))"

definition batch_retry :: run_event where
  "batch_retry =
     make_run_event (demo_form [''a'', ''a''] [''show version''] ''Text'')
       (demo_world (\<lambda>i dev. if i = 0 then Inl (NetcoreError ''unreachable'') else Inr router1))"

text \<open>
  An interleaving of the two tasks of \<open>batch_two\<close> in which task 1 inserts its entry first,
  and one in which the insertions come in order but task 1 runs to its end before task 0
  goes on.
\<close>

definition overtaking :: "nat list" where
  "overtaking = [0, 0, 1, 1, 1]"

definition finishing_first :: "nat list" where
  "finishing_first = [0, 0, 0] @ replicate 12 1"

section \<open>Lemmas\<close>

subsection \<open>Dictionaries\<close>

lemma py_keys_setitem:
  "py_keys (py_setitem d k v) = (if k \<in> set (py_keys d) then py_keys d else py_keys d @ [k])"
  by (induction d) (auto simp: py_keys_def rev_image_eqI)

lemma py_getitem_setitem:
  "py_getitem (py_setitem d k v) k' = (if k' = k then Some v else py_getitem d k')"
  by (induction d) auto

lemma py_getitem_None: "py_getitem d k = None \<longleftrightarrow> k \<notin> set (py_keys d)"
  by (induction d) (auto simp: py_keys_def rev_image_eqI split: if_splits)

lemma length_setitem_present:
  "k \<in> set (py_keys d) \<Longrightarrow> length (py_setitem d k v) = length d"
  by (induction d) (auto simp: py_keys_def rev_image_eqI)

subsection \<open>Single steps\<close>

lemma snapshot_task_queued: "\<not> queued t \<Longrightarrow> \<not> queued (fst (snapshot_task re i dev t s))"
  by (cases t) (auto split: sum.splits option.splits)

lemma snapshot_task_tasks: "tasks (snd (snapshot_task re i dev t s)) = tasks s"
  by (cases t) (auto split: sum.splits option.splits)

lemma tasks_step:
  "tasks (step re i s) =
     (if runnable (tasks s) i \<and> i < length (devices re)
      then (tasks s)[i := fst (snapshot_task re i (devices re ! i) (tasks s ! i) s)] else tasks s)"
  by (auto simp: step_def split: prod.splits)

lemma length_tasks_step [simp]: "length (tasks (step re i s)) = length (tasks s)"
  by (simp add: tasks_step)

lemma length_tasks_exec [simp]: "length (tasks (exec re sched s)) = length (tasks s)"
  by (induction sched arbitrary: s) auto

lemma exec_append: "exec re (a @ b) s = exec re b (exec re a s)"
  by (induction a arbitrary: s) auto

subsection \<open>Every task ends\<close>

text \<open>
  A statement brings a task closer to its end, a task whose predecessors have ended can
  always take its next statement, and so the tasks drained one after the other all end.
\<close>

lemma steps_left_decreases:
  "\<not> finished t \<Longrightarrow> steps_left re (fst (snapshot_task re i dev t s)) < steps_left re t"
  by (cases t) (auto split: sum.splits option.splits)

lemma steps_left_bound: "steps_left re t \<le> task_bound re"
  by (cases t) (auto simp: task_bound_def)

lemma steps_left_0: "steps_left re t = 0 \<longleftrightarrow> finished t"
  by (cases t) auto

lemma runnable_unqueued:
  "runnable ts i \<Longrightarrow> queued (ts ! i) \<Longrightarrow> j < i \<Longrightarrow> \<not> queued (ts ! j)"
  by (auto simp: runnable_def list_all_length)

lemma fifo_step: "fifo (tasks s) \<Longrightarrow> fifo (tasks (step re i s))"
proof (cases "runnable (tasks s) i \<and> i < length (devices re)")
  case False
  assume "fifo (tasks s)"
  with False show ?thesis by (auto simp: tasks_step)
next
  case True
  assume f: "fifo (tasks s)"
  define t' where "t' = fst (snapshot_task re i (devices re ! i) (tasks s ! i) s)"
  have ts': "tasks (step re i s) = (tasks s)[i := t']"
    using True by (simp add: tasks_step t'_def)
  have i: "i < length (tasks s)" using True by (simp add: runnable_def)
  have nq: "\<not> queued t'"
  proof (cases "queued (tasks s ! i)")
    case True
    then have "tasks s ! i = Queued" by (cases "tasks s ! i") auto
    then show ?thesis by (simp add: t'_def)
  next
    case False
    then show ?thesis unfolding t'_def by (rule snapshot_task_queued)
  qed
  show ?thesis
    unfolding fifo_def ts'
  proof (intro allI impI, elim conjE)
    fix a b
    assume ab: "a < b" and b: "b < length ((tasks s)[i := t'])"
      and qa: "queued ((tasks s)[i := t'] ! a)"
    have a_ne: "a \<noteq> i" using qa nq i by auto
    then have qa': "queued (tasks s ! a)" using qa by simp
    have b': "b < length (tasks s)" using b by simp
    have qb: "queued (tasks s ! b)" using f ab b' qa' by (auto simp: fifo_def)
    have "b \<noteq> i"
    proof
      assume "b = i"
      then have "queued (tasks s ! i)" "a < i" using qb ab by auto
      with True runnable_unqueued[of "tasks s" i a] qa' show False by auto
    qed
    then show "queued ((tasks s)[i := t'] ! b)" using qb by simp
  qed
qed

lemma fifo_exec: "fifo (tasks s) \<Longrightarrow> fifo (tasks (exec re sched s))"
  by (induction sched arbitrary: s) (auto simp: fifo_step)

lemma finished_step:
  "j < length (tasks s) \<Longrightarrow> finished (tasks s ! j) \<Longrightarrow> tasks (step re i s) ! j = tasks s ! j"
  by (cases "i = j") (auto simp: tasks_step runnable_def)

lemma finished_exec:
  "j < length (tasks s) \<Longrightarrow> finished (tasks s ! j) \<Longrightarrow> tasks (exec re sched s) ! j = tasks s ! j"
  by (induction sched arbitrary: s) (auto simp: finished_step)

lemma runnable_drain:
  assumes "fifo ts" "\<forall>j<i. finished (ts ! j)" "i < length ts" "\<not> finished (ts ! i)"
  shows "runnable ts i"
proof -
  have a: "list_all (\<lambda>t. \<not> queued t) (take i ts)"
    using assms(2,3) by (auto simp: list_all_length) (metis finished.elims(2) queued.simps(13))
  have b: "filter running ts = []" if "queued (ts ! i)"
  proof -
    have "\<not> running t" if "t \<in> set ts" for t
    proof -
      from \<open>t \<in> set ts\<close> obtain j where j: "j < length ts" "ts ! j = t"
        by (auto simp: in_set_conv_nth)
      consider "j < i" | "j = i" | "i < j" by linarith
      then show ?thesis
      proof cases
        case 1 then show ?thesis using assms(2) j by (auto simp: running_def)
      next
        case 2 then show ?thesis using \<open>queued (ts ! i)\<close> j by (auto simp: running_def)
      next
        case 3 then show ?thesis using assms(1) \<open>queued (ts ! i)\<close> j
          by (auto simp: running_def fifo_def)
      qed
    qed
    then show ?thesis by (auto simp: filter_empty_conv)
  qed
  show ?thesis using assms(3,4) a b by (auto simp: runnable_def max_workers_def)
qed

lemma run_one:
  assumes "fifo (tasks s)" "\<forall>j<i. finished (tasks s ! j)" "i < length (tasks s)"
    "length (tasks s) = length (devices re)"
  shows "steps_left re (tasks (exec re (replicate m i) s) ! i) \<le> steps_left re (tasks s ! i) - m"
  using assms
proof (induction m arbitrary: s)
  case 0
  then show ?case by simp
next
  case (Suc m)
  let ?s = "step re i s"
  have f: "fifo (tasks ?s)" using Suc.prems(1) by (rule fifo_step)
  have fin: "\<forall>j<i. finished (tasks ?s ! j)"
    using Suc.prems(2,3) by (auto simp: finished_step)
  have IH: "steps_left re (tasks (exec re (replicate m i) ?s) ! i) \<le> steps_left re (tasks ?s ! i) - m"
    using Suc.IH[OF f fin] Suc.prems(3,4) by simp
  show ?case
  proof (cases "finished (tasks s ! i)")
    case True
    then have "tasks ?s ! i = tasks s ! i" using Suc.prems(3) by (simp add: finished_step)
    with IH True show ?thesis by (simp add: steps_left_0[THEN iffD2])
  next
    case False
    then have "runnable (tasks s) i" using Suc.prems by (intro runnable_drain) auto
    then have "tasks ?s ! i = fst (snapshot_task re i (devices re ! i) (tasks s ! i) s)"
      using Suc.prems(3,4) by (simp add: tasks_step)
    then have "steps_left re (tasks ?s ! i) < steps_left re (tasks s ! i)"
      using steps_left_decreases[OF False] by simp
    with IH show ?thesis by simp
  qed
qed

lemma run_one_finished:
  assumes "fifo (tasks s)" "\<forall>j<i. finished (tasks s ! j)" "i < length (tasks s)"
    "length (tasks s) = length (devices re)"
  shows "finished (tasks (exec re (replicate (task_bound re) i) s) ! i)"
proof -
  have "steps_left re (tasks (exec re (replicate (task_bound re) i) s) ! i) = 0"
    using run_one[OF assms, of "task_bound re"] steps_left_bound[of re "tasks s ! i"] by simp
  then show ?thesis by (simp add: steps_left_0)
qed

lemma drain_from_step:
  "k < length (devices re) \<Longrightarrow>
   drain_from re k = replicate (task_bound re) k @ drain_from re (Suc k)"
  by (simp add: drain_from_def upt_conv_Cons)

lemma drain_from_finished:
  assumes "fifo (tasks s)" "\<forall>j<k. finished (tasks s ! j)"
    "length (tasks s) = length (devices re)" "k \<le> length (devices re)"
  shows "\<forall>j<length (devices re). finished (tasks (exec re (drain_from re k) s) ! j)"
  using assms
proof (induction "length (devices re) - k" arbitrary: k s)
  case 0
  then have "k = length (devices re)" by simp
  then show ?case using 0 by (simp add: drain_from_def)
next
  case (Suc d)
  then have k: "k < length (devices re)" by simp
  let ?s = "exec re (replicate (task_bound re) k) s"
  have fk: "finished (tasks ?s ! k)"
    using run_one_finished[of s k re] Suc.prems k by simp
  have f: "fifo (tasks ?s)" using Suc.prems(1) by (rule fifo_exec)
  have fin: "\<forall>j<Suc k. finished (tasks ?s ! j)"
  proof (intro allI impI)
    fix j assume "j < Suc k"
    then consider "j < k" | "j = k" by linarith
    then show "finished (tasks ?s ! j)"
    proof cases
      case 1
      then show ?thesis using Suc.prems k by (simp add: finished_exec)
    next
      case 2 then show ?thesis using fk by simp
    qed
  qed
  have "\<forall>j<length (devices re). finished (tasks (exec re (drain_from re (Suc k)) ?s) ! j)"
    using Suc.hyps(1)[of "Suc k" ?s] Suc.hyps(2) f fin Suc.prems(3) k by simp
  then show ?case by (simp add: drain_from_step[OF k] exec_append)
qed

lemma drain_eq: "drain re = drain_from re 0"
  by (simp add: drain_def drain_from_def)

lemma fifo_initial: "fifo (tasks (initial re))"
  by (simp add: fifo_def initial_def)

lemma all_finished:
  "j < length (devices re) \<Longrightarrow> finished (tasks (fst (thread_executor re sched)) ! j)"
proof -
  let ?s = "exec re sched (initial re)"
  have "fifo (tasks ?s)" by (rule fifo_exec[OF fifo_initial])
  moreover have "length (tasks ?s) = length (devices re)" by (simp add: initial_def)
  ultimately have "\<forall>j<length (devices re). finished (tasks (exec re (drain_from re 0) ?s) ! j)"
    by (intro drain_from_finished) auto
  then show "j < length (devices re) \<Longrightarrow> finished (tasks (fst (thread_executor re sched)) ! j)"
    by (simp add: thread_executor_def Let_def exec_append drain_eq)
qed

subsection \<open>No key is lost\<close>

lemma keys_snapshot_task:
  "set (py_keys (output_data s)) \<subseteq> set (py_keys (output_data (snd (snapshot_task re i dev t s))))"
  by (cases t) (auto simp: py_keys_setitem split: sum.splits option.splits)

lemma output_data_step_keys:
  "set (py_keys (output_data s)) \<subseteq> set (py_keys (output_data (step re j s)))"
  using keys_snapshot_task[of s re j "devices re ! j" "tasks s ! j"]
  by (auto simp: step_def split: prod.splits)

lemma in_loop_snapshot_task: "in_loop re t \<Longrightarrow> in_loop re (fst (snapshot_task re i dev t s))"
  by (cases t) (auto split: sum.splits option.splits)

lemma past_insert_snapshot_task:
  "length (devices re) \<noteq> 0 \<Longrightarrow> past_insert (fst (snapshot_task re i dev t s)) \<Longrightarrow>
   dev \<in> set (py_keys (output_data (snd (snapshot_task re i dev t s)))) \<or> past_insert t"
  by (cases t) (auto simp: py_keys_setitem split: sum.splits option.splits if_splits)

lemma inv1_step: assumes "inv1 re s" shows "inv1 re (step re j s)"
proof (cases "runnable (tasks s) j \<and> j < length (devices re)")
  case False
  then have "step re j s = s" by (auto simp: step_def)
  with assms show ?thesis by simp
next
  case True
  obtain t' s' where ts: "snapshot_task re j (devices re ! j) (tasks s ! j) s = (t', s')"
    by (cases "snapshot_task re j (devices re ! j) (tasks s ! j) s")
  have st: "step re j s = s'\<lparr>tasks := (tasks s)[j := t']\<rparr>"
    using True ts by (simp add: step_def)
  have sub: "set (py_keys (output_data s)) \<subseteq> set (py_keys (output_data s'))"
    using keys_snapshot_task[of s re j "devices re ! j" "tasks s ! j"] ts by simp
  have len: "length (tasks s) = length (devices re)" using assms by (simp add: inv1_def)
  show ?thesis
    unfolding inv1_def
  proof (intro conjI allI impI)
    show "length (tasks (step re j s)) = length (devices re)" using len by simp
  next
    fix i assume i: "i < length (devices re)"
    show "in_loop re (tasks (step re j s) ! i)"
    proof (cases "i = j")
      case True
      then show ?thesis using assms i len ts in_loop_snapshot_task[of re "tasks s ! j" j "devices re ! j" s]
        by (simp add: st inv1_def)
    next
      case False
      then show ?thesis using assms i by (simp add: st inv1_def)
    qed
  next
    fix i assume i: "i < length (devices re)" and p: "past_insert (tasks (step re j s) ! i)"
    show "devices re ! i \<in> set (py_keys (output_data (step re j s)))"
    proof (cases "i = j")
      case True
      have "past_insert t'" using p True i len by (simp add: st)
      moreover have "length (devices re) \<noteq> 0" using i by auto
      ultimately have "devices re ! j \<in> set (py_keys (output_data s')) \<or> past_insert (tasks s ! j)"
        using past_insert_snapshot_task[of re j "devices re ! j" "tasks s ! j" s] ts by simp
      then show ?thesis
        using i assms True sub by (auto simp: st inv1_def)
    next
      case False
      then have "past_insert (tasks s ! i)" using p by (simp add: st)
      then show ?thesis using assms i sub by (auto simp: st inv1_def)
    qed
  qed
qed

lemma inv1_exec: "inv1 re s \<Longrightarrow> inv1 re (exec re sched s)"
  by (induction sched arbitrary: s) (auto simp: inv1_step)

lemma inv1_initial: "inv1 re (initial re)"
  by (simp add: inv1_def initial_def)

subsection \<open>What is left of a task, step by step\<close>

lemma rest_loop_unfold:
  assumes "k < length (commands re)"
  shows "rest_loop re h k =
    (case sendCommand h k (commands re ! k) of
       Inl e \<Rightarrow> \<lparr>r_exn = Some e, r_progress = 0, r_sent = [commands re ! k], r_closed = 0\<rparr>
     | Inr raw \<Rightarrow>
         (let r = rest_loop re h (Suc k)
          in r\<lparr>r_progress := command_progress re + r_progress r,
               r_sent := commands re ! k # r_sent r\<rparr>))"
proof -
  have d: "drop k (commands re) = commands re ! k # drop (Suc k) (commands re)"
    using assms by (simp add: Cons_nth_drop_Suc)
  show ?thesis
    by (simp add: rest_loop_def d Let_def algebra_simps split: sum.splits prod.splits option.splits)
qed

lemma rest_loop_end:
  "length (commands re) \<le> k \<Longrightarrow>
   rest_loop re h k = \<lparr>r_exn = None, r_progress = 0, r_sent = [], r_closed = 1\<rparr>"
  by (simp add: rest_loop_def)

lemma snapshot_task_rest:
  assumes "past_insert t \<longrightarrow> dev \<in> set (py_keys (output_data s))"
    and "in_loop re t" and "length (devices re) \<noteq> 0"
    and "snapshot_task re i dev t s = (t', s')"
  shows "\<exists>xs cs n.
      progress s' = progress s @ xs \<and> sent s' = sent s @ map (Pair i) cs \<and>
      closed s' = closed s @ replicate n i \<and>
      r_exn (the_rest re i dev t) = r_exn (the_rest re i dev t') \<and>
      r_progress (the_rest re i dev t) = sum_list xs + r_progress (the_rest re i dev t') \<and>
      r_sent (the_rest re i dev t) = cs @ r_sent (the_rest re i dev t') \<and>
      r_closed (the_rest re i dev t) = n + r_closed (the_rest re i dev t')"
proof (cases t)
  case Queued
  then show ?thesis using assms by (intro exI[of _ "[]"] exI[of _ 0]) auto
next
  case L81
  then show ?thesis using assms by (intro exI[of _ "[]"] exI[of _ 0]) auto
next
  case L82
  then show ?thesis using assms by (intro exI[of _ "[]"] exI[of _ 0]) auto
next
  case L88
  then show ?thesis using assms
    by (intro exI[of _ "[available_progress re * 0.1]"] exI[of _ "[]"] exI[of _ 0])
       (auto simp: emit_def)
next
  case L90
  then show ?thesis using assms
    by (intro exI[of _ "[]"] exI[of _ 0]) (auto simp: rest_L90_def raised_def split: sum.splits)
next
  case (L107 h)
  then have "py_getitem (output_data s) dev \<noteq> None" using assms(1) by (simp add: py_getitem_None)
  then show ?thesis using assms L107 by (intro exI[of _ "[]"] exI[of _ 0]) auto
next
  case (L108 h)
  then show ?thesis using assms
    by (intro exI[of _ "[available_progress re * 0.2]"] exI[of _ "[]"] exI[of _ 0])
       (auto simp: emit_def)
next
  case (L110 h)
  then show ?thesis using assms
    by (intro exI[of _ "[]"] exI[of _ 0]) (auto simp: rest_L110_def raised_def)
next
  case (L113 h k)
  then have k: "k < length (commands re)" using assms(2) by simp
  show ?thesis using assms(4) L113
    by (intro exI[of _ "[]"] exI[of _ "[commands re ! k]"] exI[of _ 0])
       (auto simp: rest_loop_unfold[OF k] emit_def Let_def split: sum.splits)
next
  case (L114 h k res)
  then have "py_getitem (output_data s) dev \<noteq> None" using assms(1) by (simp add: py_getitem_None)
  then show ?thesis using assms L114 by (intro exI[of _ "[]"] exI[of _ 0]) auto
next
  case (L115 h k)
  then show ?thesis using assms
    by (intro exI[of _ "[command_progress re]"] exI[of _ "[]"] exI[of _ 0])
       (auto simp: emit_def rest_loop_end)
next
  case (L119 h)
  then show ?thesis using assms
    by (intro exI[of _ "[]"] exI[of _ "Suc 0"]) auto
next
  case (Done r)
  then show ?thesis using assms by (intro exI[of _ "[]"] exI[of _ 0]) auto
qed

lemma count_list_replicate: "count_list (replicate n x) y = (if x = y then n else 0)"
  by (induction n) auto

lemma pending_update:
  assumes "j < length (devices re)" "length ts = length (devices re)"
  shows "pending re (ts[j := t']) =
    pending re ts - r_progress (the_rest re j (devices re ! j) (ts ! j))
      + r_progress (the_rest re j (devices re ! j) t')"
proof -
  let ?f = "\<lambda>ts i. r_progress (the_rest re i (devices re ! i) (ts ! i))"
  let ?A = "{..<length (devices re)}"
  have j: "j \<in> ?A" using assms by simp
  have a: "sum (?f (ts[j := t'])) ?A = ?f (ts[j := t']) j + sum (?f (ts[j := t'])) (?A - {j})"
    by (rule sum.remove[OF _ j]) simp
  have b: "sum (?f ts) ?A = ?f ts j + sum (?f ts) (?A - {j})"
    by (rule sum.remove[OF _ j]) simp
  have c: "sum (?f (ts[j := t'])) (?A - {j}) = sum (?f ts) (?A - {j})"
    by (rule sum.cong) auto
  show ?thesis using a b c assms by (simp add: pending_def)
qed

lemma inv2_step: assumes "inv1 re s" "inv2 re s" shows "inv2 re (step re j s)"
proof (cases "runnable (tasks s) j \<and> j < length (devices re)")
  case False
  then have "step re j s = s" by (auto simp: step_def)
  with assms show ?thesis by simp
next
  case True
  then have j: "j < length (devices re)" by simp
  obtain t' s' where ts: "snapshot_task re j (devices re ! j) (tasks s ! j) s = (t', s')"
    by (cases "snapshot_task re j (devices re ! j) (tasks s ! j) s")
  have st: "step re j s = s'\<lparr>tasks := (tasks s)[j := t']\<rparr>"
    using True ts by (simp add: step_def)
  have len: "length (tasks s) = length (devices re)" using assms by (simp add: inv1_def)
  have pre: "past_insert (tasks s ! j) \<longrightarrow> devices re ! j \<in> set (py_keys (output_data s))"
    "in_loop re (tasks s ! j)" "length (devices re) \<noteq> 0"
    using assms(1) j by (auto simp: inv1_def)
  from snapshot_task_rest[OF pre ts] obtain xs cs n where
    e: "progress s' = progress s @ xs" "sent s' = sent s @ map (Pair j) cs"
      "closed s' = closed s @ replicate n j"
      "r_exn (the_rest re j (devices re ! j) (tasks s ! j)) = r_exn (the_rest re j (devices re ! j) t')"
      "r_progress (the_rest re j (devices re ! j) (tasks s ! j)) =
         sum_list xs + r_progress (the_rest re j (devices re ! j) t')"
      "r_sent (the_rest re j (devices re ! j) (tasks s ! j)) =
         cs @ r_sent (the_rest re j (devices re ! j) t')"
      "r_closed (the_rest re j (devices re ! j) (tasks s ! j)) =
         n + r_closed (the_rest re j (devices re ! j) t')"
    by blast
  have sentj: "sent_by (step re j s) j = sent_by s j @ cs"
    by (simp add: sent_by_def st e comp_def)
  have sento: "sent_by (step re j s) i = sent_by s i" if "i \<noteq> j" for i
    using that by (simp add: sent_by_def st e)
  have closedj: "closed_by (step re j s) j = closed_by s j + n"
    by (simp add: closed_by_def st e count_list_replicate)
  have closedo: "closed_by (step re j s) i = closed_by s i" if "i \<noteq> j" for i
    using that by (simp add: closed_by_def st e count_list_replicate)
  have prog: "sum_list (progress (step re j s)) + pending re (tasks (step re j s)) =
      sum_list (progress s) + pending re (tasks s)"
    using e(5) by (simp add: st e(1) pending_update[OF j len])
  show ?thesis
    unfolding inv2_def
  proof (intro conjI allI impI)
    show "sum_list (progress (step re j s)) + pending re (tasks (step re j s)) =
        9 + pending re (replicate (length (devices re)) Queued)"
      using prog assms(2) by (simp add: inv2_def)
  next
    fix i assume i: "i < length (devices re)"
    show "r_exn (the_rest re i (devices re ! i) (tasks (step re j s) ! i)) =
          r_exn (the_rest re i (devices re ! i) Queued)"
      using assms(2) i e(4) len by (cases "i = j") (auto simp: st inv2_def)
    show "sent_by (step re j s) i @ r_sent (the_rest re i (devices re ! i) (tasks (step re j s) ! i)) =
          r_sent (the_rest re i (devices re ! i) Queued)"
    proof (cases "i = j")
      case True
      then show ?thesis using assms(2) i e(6) len sentj by (auto simp: st inv2_def)
    next
      case False
      then show ?thesis using assms(2) i sento[OF False] by (auto simp: st inv2_def)
    qed
    show "closed_by (step re j s) i + r_closed (the_rest re i (devices re ! i) (tasks (step re j s) ! i)) =
          r_closed (the_rest re i (devices re ! i) Queued)"
    proof (cases "i = j")
      case True
      then show ?thesis using assms(2) i e(7) len closedj by (auto simp: st inv2_def)
    next
      case False
      then show ?thesis using assms(2) i closedo[OF False] by (auto simp: st inv2_def)
    qed
  qed
qed

lemma inv2_exec: "inv1 re s \<Longrightarrow> inv2 re s \<Longrightarrow> inv2 re (exec re sched s)"
  by (induction sched arbitrary: s) (auto simp: inv1_step inv2_step)

lemma inv2_initial: "inv2 re (initial re)"
  by (simp add: inv2_def initial_def sent_by_def closed_by_def)

subsection \<open>The entry of a device that is listed once\<close>

lemma entry_loop_unfold:
  assumes "k < length (commands re)"
  shows "entry_loop re h k en =
    (case sendCommand h k (commands re ! k) of
       Inl e \<Rightarrow> en
     | Inr raw \<Rightarrow>
         entry_loop re h (Suc k)
           (en\<lparr>command_output := py_setitem (command_output en) (commands re ! k) (py_strip raw)\<rparr>))"
proof -
  have d: "drop k (commands re) = commands re ! k # drop (Suc k) (commands re)"
    using assms by (simp add: Cons_nth_drop_Suc)
  show ?thesis
    by (simp add: entry_loop_def d split: sum.splits)
qed

lemma entry_loop_end: "length (commands re) \<le> k \<Longrightarrow> entry_loop re h k en = en"
  by (simp add: entry_loop_def)

lemma snapshot_task_entry:
  assumes "past_insert t \<longrightarrow> dev \<in> set (py_keys (output_data s))"
    and "in_loop re t" and "length (devices re) \<noteq> 0"
    and "snapshot_task re i dev t s = (t', s')"
  shows "rest_entry re i dev t' (cur s' dev) = rest_entry re i dev t (cur s dev)"
proof (cases t)
  case (L107 h)
  then have "py_getitem (output_data s) dev \<noteq> None" using assms(1) by (simp add: py_getitem_None)
  then obtain en where "py_getitem (output_data s) dev = Some en" by auto
  then show ?thesis using assms L107 by (auto simp: cur_def py_getitem_setitem)
next
  case (L113 h k)
  then have k: "k < length (commands re)" using assms(2) by simp
  show ?thesis using assms(4) L113
    by (auto simp: entry_loop_unfold[OF k] cur_def split: sum.splits)
next
  case (L114 h k res)
  then have "py_getitem (output_data s) dev \<noteq> None" using assms(1) by (simp add: py_getitem_None)
  then obtain en where "py_getitem (output_data s) dev = Some en" by auto
  then show ?thesis using assms L114 by (auto simp: cur_def py_getitem_setitem)
next
  case (L115 h k)
  then show ?thesis using assms by (auto simp: cur_def entry_loop_end)
qed (use assms in \<open>auto simp: cur_def py_getitem_setitem entry_L90_def entry_L110_def
      split: sum.splits if_splits\<close>)

lemma snapshot_task_other:
  assumes "snapshot_task re j dev t s = (t', s')" "d \<noteq> dev"
  shows "py_getitem (output_data s') d = py_getitem (output_data s) d"
  using assms by (cases t) (auto simp: py_getitem_setitem split: sum.splits option.splits if_splits)

lemma inv3_step:
  assumes "inv1 re s" "inv3 re i s" "unique re i" "i < length (devices re)"
  shows "inv3 re i (step re j s)"
proof (cases "runnable (tasks s) j \<and> j < length (devices re)")
  case False
  then have "step re j s = s" by (auto simp: step_def)
  with assms show ?thesis by simp
next
  case True
  then have j: "j < length (devices re)" by simp
  obtain t' s' where ts: "snapshot_task re j (devices re ! j) (tasks s ! j) s = (t', s')"
    by (cases "snapshot_task re j (devices re ! j) (tasks s ! j) s")
  have st: "step re j s = s'\<lparr>tasks := (tasks s)[j := t']\<rparr>"
    using True ts by (simp add: step_def)
  have len: "length (tasks s) = length (devices re)" using assms by (simp add: inv1_def)
  have pre: "past_insert (tasks s ! j) \<longrightarrow> devices re ! j \<in> set (py_keys (output_data s))"
    "in_loop re (tasks s ! j)" "length (devices re) \<noteq> 0"
    using assms(1) j by (auto simp: inv1_def)
  have c: "cur (s'\<lparr>tasks := x\<rparr>) d = cur s' d" for d x by (simp add: cur_def)
  show ?thesis
  proof (cases "i = j")
    case True
    then show ?thesis
      using snapshot_task_entry[OF pre ts] assms(2) len j by (simp add: inv3_def st c)
  next
    case False
    then have "devices re ! i \<noteq> devices re ! j" using assms(3) j by (auto simp: unique_def)
    then have "cur s' (devices re ! i) = cur s (devices re ! i)"
      using snapshot_task_other[OF ts] by (simp add: cur_def)
    then show ?thesis using assms(2) False by (simp add: inv3_def st c)
  qed
qed

lemma inv3_exec:
  "inv1 re s \<Longrightarrow> inv3 re i s \<Longrightarrow> unique re i \<Longrightarrow> i < length (devices re) \<Longrightarrow>
   inv3 re i (exec re sched s)"
  by (induction sched arbitrary: s) (auto simp: inv1_step inv3_step)

lemma inv3_initial: "i < length (devices re) \<Longrightarrow> inv3 re i (initial re)"
  by (simp add: inv3_def initial_def)

subsection \<open>The keys of the result and their order\<close>

lemma foldl_add_key_set: "set (foldl add_key ks xs) = set ks \<union> set xs"
  by (induction xs arbitrary: ks) (auto simp: add_key_def)

lemma foldl_add_key_distinct: "distinct ks \<Longrightarrow> distinct (foldl add_key ks xs)"
  by (induction xs arbitrary: ks) (auto simp: add_key_def)

lemma foldl_add_key_id: "distinct (ks @ xs) \<Longrightarrow> foldl add_key ks xs = ks @ xs"
  by (induction xs arbitrary: ks) (auto simp: add_key_def)

lemma first_occurrences_distinct: "distinct xs \<Longrightarrow> first_occurrences xs = xs"
  using foldl_add_key_id[of "[]" xs] by (simp add: first_occurrences_def)

lemma keys_snapshot_task_eq:
  assumes "past_insert t \<longrightarrow> dev \<in> set (py_keys (output_data s))"
  shows "py_keys (output_data (snd (snapshot_task re i dev t s))) =
     (if at_insert t then add_key (py_keys (output_data s)) dev else py_keys (output_data s))"
  using assms
  by (cases t) (auto simp: py_keys_setitem add_key_def split: sum.splits option.splits)

lemma past_insert_snapshot_task_eq:
  "length (devices re) \<noteq> 0 \<Longrightarrow>
   past_insert (fst (snapshot_task re i dev t s)) = (past_insert t \<or> at_insert t)"
  by (cases t) (auto split: sum.splits option.splits)

lemma finished_past_insert: "finished t \<Longrightarrow> past_insert t"
  by (cases t) auto

lemma inv_keys_step: assumes "inv1 re s" "inv_keys re s" shows "inv_keys re (step re j s)"
proof (cases "runnable (tasks s) j \<and> j < length (devices re)")
  case False
  then have "step re j s = s" by (auto simp: step_def)
  with assms show ?thesis by simp
next
  case True
  then have j: "j < length (devices re)" by simp
  have pre: "past_insert (tasks s ! j) \<longrightarrow> devices re ! j \<in> set (py_keys (output_data s))"
    using assms(1) j by (auto simp: inv1_def)
  have "output_data (step re j s) = output_data (snd (snapshot_task re j (devices re ! j) (tasks s ! j) s))"
    using True by (simp add: step_def split: prod.splits)
  then have "py_keys (output_data (step re j s)) =
     (if at_insert (tasks s ! j) then add_key (py_keys (output_data s)) (devices re ! j)
      else py_keys (output_data s))"
    using keys_snapshot_task_eq[OF pre] by simp
  then show ?thesis using assms(2) j by (auto simp: inv_keys_def add_key_def)
qed

lemma inv_keys_exec: "inv1 re s \<Longrightarrow> inv_keys re s \<Longrightarrow> inv_keys re (exec re sched s)"
  by (induction sched arbitrary: s) (auto simp: inv1_step inv_keys_step)

lemma inv_keys_initial: "inv_keys re (initial re)"
  by (simp add: inv_keys_def initial_def py_keys_def)

lemma inv_order_step:
  assumes "inv1 re s" "inv_order re s"
    and ord: "runnable (tasks s) j \<and> j < length (devices re) \<and> at_insert (tasks s ! j)
         \<longrightarrow> list_all past_insert (take j (tasks s))"
  shows "inv_order re (step re j s)"
proof (cases "runnable (tasks s) j \<and> j < length (devices re)")
  case False
  then have "step re j s = s" by (auto simp: step_def)
  with assms show ?thesis by simp
next
  case True
  then have j: "j < length (devices re)" by simp
  have len: "length (tasks s) = length (devices re)" using assms(1) by (simp add: inv1_def)
  have ne: "length (devices re) \<noteq> 0" using j by auto
  have pre: "past_insert (tasks s ! j) \<longrightarrow> devices re ! j \<in> set (py_keys (output_data s))"
    using assms(1) j by (auto simp: inv1_def)
  obtain t' s' where ts: "snapshot_task re j (devices re ! j) (tasks s ! j) s = (t', s')"
    by (cases "snapshot_task re j (devices re ! j) (tasks s ! j) s")
  have st: "step re j s = s'\<lparr>tasks := (tasks s)[j := t']\<rparr>"
    using True ts by (simp add: step_def)
  have keys: "py_keys (output_data s') =
     (if at_insert (tasks s ! j) then add_key (py_keys (output_data s)) (devices re ! j)
      else py_keys (output_data s))"
    using keys_snapshot_task_eq[OF pre, where re = re and i = j] ts by simp
  have past: "past_insert t' = (past_insert (tasks s ! j) \<or> at_insert (tasks s ! j))"
    using past_insert_snapshot_task_eq[OF ne, where i = j and dev = "devices re ! j" and t = "tasks s ! j" and s = s] ts by simp
  from assms(2) obtain m where m: "m \<le> length (devices re)"
    "\<forall>i<length (devices re). past_insert (tasks s ! i) \<longleftrightarrow> i < m"
    "py_keys (output_data s) = first_occurrences (take m (devices re))"
    by (auto simp: inv_order_def)
  show ?thesis
  proof (cases "at_insert (tasks s ! j)")
    case False
    have "\<forall>i<length (devices re). past_insert (tasks (step re j s) ! i) \<longleftrightarrow> i < m"
    proof (intro allI impI)
      fix i assume "i < length (devices re)"
      then show "past_insert (tasks (step re j s) ! i) \<longleftrightarrow> i < m"
        using m(2) past False len by (cases "i = j") (auto simp: st)
    qed
    moreover have "py_keys (output_data (step re j s)) = first_occurrences (take m (devices re))"
      using keys False m(3) by (simp add: st)
    ultimately show ?thesis using m(1) unfolding inv_order_def by blast
  next
    case at: True
    then have np: "\<not> past_insert (tasks s ! j)" by (cases "tasks s ! j") auto
    have "list_all past_insert (take j (tasks s))" using ord True at by simp
    then have below: "\<forall>i<j. past_insert (tasks s ! i)"
      using j len by (auto simp: list_all_length)
    have "m = j"
    proof (rule antisym)
      show "m \<le> j" using np m(2) j by (meson not_le_imp_less)
      show "j \<le> m"
      proof (rule ccontr)
        assume "\<not> j \<le> m"
        then have "m < j" by simp
        then have "past_insert (tasks s ! m)" using below by simp
        then show False using m(2) \<open>m < j\<close> j by auto
      qed
    qed
    have "\<forall>i<length (devices re). past_insert (tasks (step re j s) ! i) \<longleftrightarrow> i < Suc j"
    proof (intro allI impI)
      fix i assume "i < length (devices re)"
      then show "past_insert (tasks (step re j s) ! i) \<longleftrightarrow> i < Suc j"
        using m(2) past at len \<open>m = j\<close> by (cases "i = j") (auto simp: st)
    qed
    moreover have "py_keys (output_data (step re j s)) = first_occurrences (take (Suc j) (devices re))"
      using keys at m(3) j \<open>m = j\<close>
      by (simp add: st first_occurrences_def take_Suc_conv_app_nth)
    moreover have "Suc j \<le> length (devices re)" using j by simp
    ultimately show ?thesis unfolding inv_order_def by blast
  qed
qed

lemma inv_order_exec:
  "inv1 re s \<Longrightarrow> inv_order re s \<Longrightarrow> ordered_inserts re sched s \<Longrightarrow>
   inv_order re (exec re sched s)"
  by (induction sched arbitrary: s) (auto simp: inv1_step inv_order_step)

lemma inv_order_initial: "inv_order re (initial re)"
  by (auto simp: inv_order_def initial_def py_keys_def first_occurrences_def intro!: exI[of _ 0])

lemma ordered_inserts_append:
  "ordered_inserts re (a @ b) s \<longleftrightarrow> ordered_inserts re a s \<and> ordered_inserts re b (exec re a s)"
  by (induction a arbitrary: s) auto

lemma ordered_replicate:
  assumes "\<forall>j<i. finished (tasks s ! j)" "i < length (tasks s)"
  shows "ordered_inserts re (replicate m i) s"
  using assms
proof (induction m arbitrary: s)
  case 0
  then show ?case by simp
next
  case (Suc m)
  have "list_all past_insert (take i (tasks s))"
    using Suc.prems by (auto simp: list_all_length finished_past_insert)
  moreover have "\<forall>j<i. finished (tasks (step re i s) ! j)"
    using Suc.prems by (auto simp: finished_step)
  ultimately show ?case using Suc.IH[of "step re i s"] Suc.prems(2) by simp
qed

lemma ordered_drain_from:
  assumes "fifo (tasks s)" "\<forall>j<k. finished (tasks s ! j)"
    "length (tasks s) = length (devices re)" "k \<le> length (devices re)"
  shows "ordered_inserts re (drain_from re k) s"
  using assms
proof (induction "length (devices re) - k" arbitrary: k s)
  case 0
  then show ?case by (simp add: drain_from_def)
next
  case (Suc d)
  then have k: "k < length (devices re)" by simp
  let ?s = "exec re (replicate (task_bound re) k) s"
  have o1: "ordered_inserts re (replicate (task_bound re) k) s"
    using Suc.prems k by (intro ordered_replicate) auto
  have fk: "finished (tasks ?s ! k)"
    using run_one_finished[of s k re] Suc.prems k by simp
  have f: "fifo (tasks ?s)" using Suc.prems(1) by (rule fifo_exec)
  have fin: "\<forall>j<Suc k. finished (tasks ?s ! j)"
  proof (intro allI impI)
    fix j assume "j < Suc k"
    then consider "j < k" | "j = k" by linarith
    then show "finished (tasks ?s ! j)"
    proof cases
      case 1
      then show ?thesis using Suc.prems k by (simp add: finished_exec)
    next
      case 2 then show ?thesis using fk by simp
    qed
  qed
  have "ordered_inserts re (drain_from re (Suc k)) ?s"
    using Suc.hyps(1)[of "Suc k" ?s] Suc.hyps(2) f fin Suc.prems(3) k by simp
  then show ?case using o1 by (simp add: drain_from_step[OF k] ordered_inserts_append)
qed

subsection \<open>The state when the pool has shut down\<close>

lemma fin_exec: "fst (thread_executor re sched) = exec re (sched @ drain re) (initial re)"
  by (simp add: thread_executor_def Let_def)

lemma fin_inv1: "inv1 re (fst (thread_executor re sched))"
  by (simp add: fin_exec inv1_exec inv1_initial)

lemma fin_inv2: "inv2 re (fst (thread_executor re sched))"
  by (simp add: fin_exec inv2_exec inv1_initial inv2_initial)

lemma fin_inv_keys: "inv_keys re (fst (thread_executor re sched))"
  by (simp add: fin_exec inv_keys_exec inv1_initial inv_keys_initial)

lemma fin_inv3:
  "unique re i \<Longrightarrow> i < length (devices re) \<Longrightarrow> inv3 re i (fst (thread_executor re sched))"
  by (simp add: fin_exec inv3_exec inv1_initial inv3_initial)

lemma finished_Done: "finished t \<Longrightarrow> \<exists>r. t = Done r"
  by (cases t) auto

lemma fin_task:
  assumes "i < length (devices re)"
  shows "tasks (fst (thread_executor re sched)) ! i =
           Done (r_exn (the_rest re i (devices re ! i) Queued))"
proof -
  obtain r where r: "tasks (fst (thread_executor re sched)) ! i = Done r"
    using all_finished[OF assms] finished_Done by blast
  have "r_exn (the_rest re i (devices re ! i) (tasks (fst (thread_executor re sched)) ! i)) =
          r_exn (the_rest re i (devices re ! i) Queued)"
    using fin_inv2[of re sched] assms by (simp add: inv2_def)
  then show ?thesis by (simp add: r)
qed

lemma fin_sent:
  assumes "i < length (devices re)"
  shows "sent_by (fst (thread_executor re sched)) i = r_sent (the_rest re i (devices re ! i) Queued)"
proof -
  have "sent_by (fst (thread_executor re sched)) i
      @ r_sent (the_rest re i (devices re ! i) (tasks (fst (thread_executor re sched)) ! i)) =
          r_sent (the_rest re i (devices re ! i) Queued)"
    using fin_inv2[of re sched] assms by (simp add: inv2_def)
  then show ?thesis by (simp add: fin_task[OF assms])
qed

lemma fin_closed:
  assumes "i < length (devices re)"
  shows "closed_by (fst (thread_executor re sched)) i = r_closed (the_rest re i (devices re ! i) Queued)"
proof -
  have "closed_by (fst (thread_executor re sched)) i
      + r_closed (the_rest re i (devices re ! i) (tasks (fst (thread_executor re sched)) ! i)) =
          r_closed (the_rest re i (devices re ! i) Queued)"
    using fin_inv2[of re sched] assms by (simp add: inv2_def)
  then show ?thesis by (simp add: fin_task[OF assms])
qed

lemma fin_progress:
  "sum_list (progress (fst (thread_executor re sched))) =
     9 + (\<Sum>i<length (devices re). r_progress (the_rest re i (devices re ! i) Queued))"
proof -
  let ?s = "fst (thread_executor re sched)"
  have "pending re (tasks ?s) = 0"
    by (simp add: pending_def fin_task)
  moreover have "sum_list (progress ?s) + pending re (tasks ?s) =
      9 + pending re (replicate (length (devices re)) Queued)"
    using fin_inv2[of re sched] by (simp add: inv2_def)
  ultimately show ?thesis by (simp add: pending_def)
qed

lemma fin_present:
  assumes "i < length (devices re)"
  shows "devices re ! i \<in> set (py_keys (output_data (fst (thread_executor re sched))))"
proof -
  have "past_insert (tasks (fst (thread_executor re sched)) ! i)"
    by (simp add: fin_task[OF assms])
  then show ?thesis using fin_inv1[of re sched] assms by (simp add: inv1_def)
qed

lemma fin_entry:
  assumes "unique re i" "i < length (devices re)"
  shows "py_getitem (output_data (fst (thread_executor re sched))) (devices re ! i) =
           Some (entry_L90 re i (devices re ! i) empty_entry)"
proof -
  let ?s = "fst (thread_executor re sched)"
  have "cur ?s (devices re ! i) = entry_L90 re i (devices re ! i) empty_entry"
    using fin_inv3[OF assms, of sched] by (simp add: inv3_def fin_task[OF assms(2)])
  moreover have "py_getitem (output_data ?s) (devices re ! i) \<noteq> None"
    using fin_present[OF assms(2)] by (simp add: py_getitem_None)
  ultimately show ?thesis by (auto simp: cur_def)
qed

lemma fin_keys_set:
  "set (py_keys (output_data (fst (thread_executor re sched)))) = set (devices re)"
proof
  show "set (py_keys (output_data (fst (thread_executor re sched)))) \<subseteq> set (devices re)"
    using fin_inv_keys[of re sched] by (simp add: inv_keys_def)
  show "set (devices re) \<subseteq> set (py_keys (output_data (fst (thread_executor re sched))))"
    using fin_present by (auto simp: in_set_conv_nth)
qed

lemma fin_keys_ordered:
  assumes "ordered_inserts re sched (initial re)"
  shows "py_keys (output_data (fst (thread_executor re sched))) = first_occurrences (devices re)"
proof -
  let ?s = "exec re sched (initial re)"
  have f: "fifo (tasks ?s)" by (rule fifo_exec[OF fifo_initial])
  have l: "length (tasks ?s) = length (devices re)" by (simp add: initial_def)
  have "ordered_inserts re (drain_from re 0) ?s"
    using f l by (intro ordered_drain_from) auto
  then have "ordered_inserts re (sched @ drain re) (initial re)"
    using assms by (simp add: ordered_inserts_append drain_eq)
  then have io: "inv_order re (fst (thread_executor re sched))"
    by (simp add: fin_exec inv_order_exec inv1_initial inv_order_initial)
  then obtain m where m: "m \<le> length (devices re)"
    "\<forall>j<length (devices re). past_insert (tasks (fst (thread_executor re sched)) ! j) \<longleftrightarrow> j < m"
    "py_keys (output_data (fst (thread_executor re sched))) = first_occurrences (take m (devices re))"
    by (auto simp: inv_order_def)
  have "m = length (devices re)"
  proof (rule ccontr)
    assume "m \<noteq> length (devices re)"
    then have "m < length (devices re)" using m(1) by simp
    then have "past_insert (tasks (fst (thread_executor re sched)) ! m)"
      by (simp add: fin_task)
    then show False using m(2) \<open>m < length (devices re)\<close> by auto
  qed
  then show ?thesis using m(3) by simp
qed

subsection \<open>The progress of a run\<close>

lemma total_progress_eq:
  "total_progress re sched = 11 + (\<Sum>i<length (devices re). share re i)"
proof -
  have "total_progress re sched = sum_list (progress (fst (thread_executor re sched))) + 2"
    by (simp add: total_progress_def run_batch_def Let_def split: prod.splits)
  then show ?thesis by (simp add: fin_progress share_def)
qed

lemma cmd_loop_None: "snd (cmd_loop h k cs) = None \<Longrightarrow> fst (cmd_loop h k cs) = length cs"
  by (induction h k cs rule: cmd_loop.induct) (auto split: sum.splits prod.splits)

lemma share_success:
  assumes "r_exn (the_rest re i (devices re ! i) Queued) = None"
  shows "share re i = available_progress re"
proof (cases "open_session re i (devices re ! i)")
  case (Inl e)
  then show ?thesis using assms by (simp add: emit_def rest_L90_def raised_def)
next
  case (Inr h)
  have c: "length (commands re) \<noteq> 0"
    using assms Inr by (auto simp: emit_def rest_L90_def rest_L110_def raised_def)
  then have "snd (cmd_loop h 0 (commands re)) = None"
    using assms Inr by (simp add: emit_def rest_L90_def rest_L110_def rest_loop_def split: prod.splits)
  then have "fst (cmd_loop h 0 (commands re)) = length (commands re)"
    by (rule cmd_loop_None)
  then have "r_progress (rest_loop re h 0) = available_progress re * 0.7"
    using c by (cases "cmd_loop h 0 (commands re)") (simp add: rest_loop_def command_progress_def)
  then show ?thesis using Inr c
    by (simp add: share_def emit_def rest_L90_def rest_L110_def)
qed

lemma total_progress_success:
  assumes "length (devices re) \<noteq> 0"
    and "\<forall>i<length (devices re). tasks (final (run_batch re sched)) ! i = Done None"
  shows "total_progress re sched = 101"
proof -
  have "r_exn (the_rest re i (devices re ! i) Queued) = None" if "i < length (devices re)" for i
  proof -
    have "tasks (fst (thread_executor re sched)) ! i = Done None"
      using assms(2) that by (simp add: run_batch_def Let_def split: prod.splits)
    then show ?thesis using fin_task[OF that, of sched] by simp
  qed
  then have "(\<Sum>i<length (devices re). share re i) = (\<Sum>i<length (devices re). available_progress re)"
    by (intro sum.cong) (auto simp: share_success)
  also have "\<dots> = 90" using assms(1) by (simp add: available_progress_def)
  finally show ?thesis by (simp add: total_progress_eq)
qed

subsection \<open>The command loop in closed form\<close>

lemma py_update_append: "py_update d (a @ b) = py_update (py_update d a) b"
  by (induction a arbitrary: d) auto

lemma py_keys_update: "py_keys (py_update d e) = foldl add_key (py_keys d) (map fst e)"
  by (induction e arbitrary: d) (auto simp: py_keys_setitem add_key_def)

lemma py_getitem_update_notin:
  "k \<notin> fst ` set e \<Longrightarrow> py_getitem (py_update d e) k = py_getitem d k"
  by (induction e arbitrary: d) (auto simp: py_getitem_setitem)

lemma py_getitem_update_last:
  "k \<notin> fst ` set e \<Longrightarrow> py_getitem (py_update d (a @ (k, v) # e)) k = Some v"
  by (simp add: py_update_append py_getitem_update_notin py_getitem_setitem)

lemma distinct_setitem: "distinct (py_keys d) \<Longrightarrow> distinct (py_keys (py_setitem d k v))"
  by (simp add: py_keys_setitem)

lemma loop_prefix:
  assumes "length raws = m" "m \<le> length cs"
    "\<forall>j<m. sendCommand h (k + j) (cs ! j) = Inr (raws ! j)"
  shows "loop_output h k cs co =
           loop_output h (k + m) (drop m cs)
             (py_update co (zip (take m cs) (map py_strip raws)))"
    and "cmd_loop h k cs = (case cmd_loop h (k + m) (drop m cs) of (m', r) \<Rightarrow> (m + m', r))"
  using assms
proof (induction raws arbitrary: m k cs co)
  case Nil
  { case 1 then show ?case by simp }
  { case 2 then show ?case by simp }
next
  case (Cons raw raws)
  { case 1
    then obtain c cs' m' where cs: "cs = c # cs'" and m: "m = Suc m'"
      by (cases cs; cases m) auto
    have h0: "sendCommand h k c = Inr raw" using 1(3) cs m by force
    have hs: "\<forall>j<m'. sendCommand h (Suc k + j) (cs' ! j) = Inr (raws ! j)"
    proof (intro allI impI)
      fix j assume "j < m'"
      then have "sendCommand h (k + Suc j) (cs ! Suc j) = Inr ((raw # raws) ! Suc j)"
        using 1(3) m by blast
      then show "sendCommand h (Suc k + j) (cs' ! j) = Inr (raws ! j)" by (simp add: cs)
    qed
    have "loop_output h (Suc k) cs' (py_setitem co c (py_strip raw)) =
        loop_output h (Suc k + m') (drop m' cs')
          (py_update (py_setitem co c (py_strip raw)) (zip (take m' cs') (map py_strip raws)))"
      using Cons.IH(1)[of m' cs' "Suc k"] 1 cs m hs by simp
    then show ?case using h0 by (simp add: cs m) }
  { case 2
    then obtain c cs' m' where cs: "cs = c # cs'" and m: "m = Suc m'"
      by (cases cs; cases m) auto
    have h0: "sendCommand h k c = Inr raw" using 2(3) cs m by force
    have hs: "\<forall>j<m'. sendCommand h (Suc k + j) (cs' ! j) = Inr (raws ! j)"
    proof (intro allI impI)
      fix j assume "j < m'"
      then have "sendCommand h (k + Suc j) (cs ! Suc j) = Inr ((raw # raws) ! Suc j)"
        using 2(3) m by blast
      then show "sendCommand h (Suc k + j) (cs' ! j) = Inr (raws ! j)" by (simp add: cs)
    qed
    have "cmd_loop h (Suc k) cs' =
        (case cmd_loop h (Suc k + m') (drop m' cs') of (m'', r) \<Rightarrow> (m' + m'', r))"
      using Cons.IH(2)[of m' cs' "Suc k"] 2 cs m hs by simp
    then show ?case using h0 by (simp add: cs m split: prod.splits) }
qed

lemma loop_output_closed:
  assumes "length raws = m" "m \<le> length cs"
    "\<forall>j<m. sendCommand h j (cs ! j) = Inr (raws ! j)" "stops_at h cs m"
  shows "loop_output h 0 cs [] = py_update [] (zip (take m cs) (map py_strip raws))"
proof -
  have a: "loop_output h 0 cs [] =
      loop_output h m (drop m cs) (py_update [] (zip (take m cs) (map py_strip raws)))"
    using loop_prefix(1)[of raws m cs h 0 "[]"] assms by simp
  show ?thesis
  proof (cases "m = length cs")
    case True
    then show ?thesis using a by simp
  next
    case False
    then have m: "m < length cs" and f: "isl (sendCommand h m (cs ! m))"
      using assms(4) by (auto simp: stops_at_def)
    have "drop m cs = cs ! m # drop (Suc m) cs" using m by (simp add: Cons_nth_drop_Suc)
    then show ?thesis using a f by (auto simp: isl_def)
  qed
qed

lemma cmd_loop_closed:
  assumes "length raws = m" "m \<le> length cs"
    "\<forall>j<m. sendCommand h j (cs ! j) = Inr (raws ! j)"
  shows "m = length cs \<Longrightarrow> cmd_loop h 0 cs = (m, None)"
    and "m < length cs \<Longrightarrow> sendCommand h m (cs ! m) = Inl e \<Longrightarrow> cmd_loop h 0 cs = (m, Some e)"
proof -
  have a: "cmd_loop h 0 cs = (case cmd_loop h m (drop m cs) of (m', r) \<Rightarrow> (m + m', r))"
    using loop_prefix(2)[of raws m cs h 0] assms by simp
  show "m = length cs \<Longrightarrow> cmd_loop h 0 cs = (m, None)" using a by simp
  show "m < length cs \<Longrightarrow> sendCommand h m (cs ! m) = Inl e \<Longrightarrow> cmd_loop h 0 cs = (m, Some e)"
    using a by (simp add: Cons_nth_drop_Suc[symmetric])
qed

subsection \<open>Entries, devices that cannot be reached, the error log\<close>

lemma set_setitem: "set (py_setitem d k v) \<subseteq> insert (k, v) (set d)"
  by (induction d) (auto split: if_splits)

lemma py_getitem_mem: "py_getitem d k = Some v \<Longrightarrow> (k, v) \<in> set d"
  by (induction d) (auto split: if_splits)

lemma good_entry_snapshot_task:
  assumes "in_loop re t" "\<forall>p\<in>set (output_data s). good_entry re (snd p)"
  shows "\<forall>p\<in>set (output_data (snd (snapshot_task re i dev t s))). good_entry re (snd p)"
proof (cases t)
  case L82
  have "good_entry re empty_entry" by (simp add: good_entry_def empty_entry_def py_keys_def)
  then show ?thesis using assms L82 set_setitem[of "output_data s" dev empty_entry]
    by auto
next
  case (L107 h)
  show ?thesis
  proof (cases "py_getitem (output_data s) dev")
    case None
    then show ?thesis using assms L107 by simp
  next
    case (Some en)
    then have "good_entry re en" using assms(2) py_getitem_mem by fastforce
    then have "good_entry re (en\<lparr>prompt := handler_prompt h\<rparr>)" by (simp add: good_entry_def)
    then show ?thesis
      using assms L107 Some set_setitem[of "output_data s" dev "en\<lparr>prompt := handler_prompt h\<rparr>"]
      by auto
  qed
next
  case (L114 h k res)
  show ?thesis
  proof (cases "py_getitem (output_data s) dev")
    case None
    then show ?thesis using assms L114 by simp
  next
    case (Some en)
    let ?en = "en\<lparr>command_output := py_setitem (command_output en) (commands re ! k) res\<rparr>"
    have "good_entry re en" using assms(2) Some py_getitem_mem by fastforce
    moreover have "commands re ! k \<in> set (commands re)" using assms(1) L114 by simp
    ultimately have "good_entry re ?en"
      by (auto simp: good_entry_def py_keys_setitem)
    then show ?thesis
      using assms L114 Some set_setitem[of "output_data s" dev ?en] by auto
  qed
qed (use assms in \<open>auto split: sum.splits\<close>)

lemma inv_entries_step: assumes "inv1 re s" "inv_entries re s" shows "inv_entries re (step re j s)"
proof (cases "runnable (tasks s) j \<and> j < length (devices re)")
  case False
  then have "step re j s = s" by (auto simp: step_def)
  with assms show ?thesis by simp
next
  case True
  then have "in_loop re (tasks s ! j)" using assms(1) by (simp add: inv1_def)
  then show ?thesis
    using good_entry_snapshot_task[of re "tasks s ! j" s j "devices re ! j"] assms(2) True
    by (simp add: inv_entries_def step_def split: prod.splits)
qed

lemma inv_entries_exec: "inv1 re s \<Longrightarrow> inv_entries re s \<Longrightarrow> inv_entries re (exec re sched s)"
  by (induction sched arbitrary: s) (auto simp: inv1_step inv_entries_step)

lemma inv_entries_initial: "inv_entries re (initial re)"
  by (simp add: inv_entries_def initial_def)

lemma fin_inv_entries: "inv_entries re (fst (thread_executor re sched))"
  by (simp add: fin_exec inv_entries_exec inv1_initial inv_entries_initial)

lemma snapshot_task_fail:
  assumes "isl (open_session re j d)" "pre_open t"
    "py_getitem (output_data s) d = None \<or> py_getitem (output_data s) d = Some empty_entry"
    "snapshot_task re j d t s = (t', s')"
  shows "pre_open t' \<and>
    (py_getitem (output_data s') d = None \<or> py_getitem (output_data s') d = Some empty_entry)"
  using assms by (cases t) (auto simp: py_getitem_setitem isl_def split: if_splits)

lemma inv_fail_step:
  assumes "never_opens re d" "inv_fail re d s" "length (tasks s) = length (devices re)"
  shows "inv_fail re d (step re j s)"
proof (cases "runnable (tasks s) j \<and> j < length (devices re)")
  case False
  then have "step re j s = s" by (auto simp: step_def)
  with assms show ?thesis by simp
next
  case True
  then have j: "j < length (devices re)" by simp
  obtain t' s' where ts: "snapshot_task re j (devices re ! j) (tasks s ! j) s = (t', s')"
    by (cases "snapshot_task re j (devices re ! j) (tasks s ! j) s")
  have st: "step re j s = s'\<lparr>tasks := (tasks s)[j := t']\<rparr>"
    using True ts by (simp add: step_def)
  show ?thesis
  proof (cases "devices re ! j = d")
    case True
    have "isl (open_session re j d)" using assms(1) j True by (simp add: never_opens_def)
    moreover have "pre_open (tasks s ! j)" using assms(2) j True by (simp add: inv_fail_def)
    ultimately have *: "pre_open t' \<and>
      (py_getitem (output_data s') d = None \<or> py_getitem (output_data s') d = Some empty_entry)"
      using snapshot_task_fail[of re j d "tasks s ! j" s t' s'] ts assms(2) True
      by (simp add: inv_fail_def)
    show ?thesis
      unfolding inv_fail_def
    proof (intro conjI allI impI)
      fix i assume "i < length (devices re)" "devices re ! i = d"
      then show "pre_open (tasks (step re j s) ! i)"
        using * assms(2,3) by (cases "i = j") (auto simp: st inv_fail_def)
    next
      show "py_getitem (output_data (step re j s)) d = None \<or>
            py_getitem (output_data (step re j s)) d = Some empty_entry"
        using * by (simp add: st)
    qed
  next
    case False
    then have g: "py_getitem (output_data s') d = py_getitem (output_data s) d"
      using snapshot_task_other[OF ts, of d] by simp
    have "pre_open (tasks (step re j s) ! i)" if "i < length (devices re)" "devices re ! i = d" for i
    proof -
      have "i \<noteq> j" using that False by auto
      then show ?thesis using assms(2) that by (simp add: st inv_fail_def)
    qed
    then show ?thesis using assms(2) g by (simp add: inv_fail_def st)
  qed
qed

lemma inv_fail_exec:
  "never_opens re d \<Longrightarrow> inv_fail re d s \<Longrightarrow> length (tasks s) = length (devices re) \<Longrightarrow>
   inv_fail re d (exec re sched s)"
  by (induction sched arbitrary: s) (auto simp: inv_fail_step)

lemma fin_never_opens:
  assumes "never_opens re (devices re ! i)" "i < length (devices re)"
  shows "py_getitem (output_data (fst (thread_executor re sched))) (devices re ! i) = Some empty_entry"
proof -
  have "inv_fail re (devices re ! i) (initial re)" by (simp add: inv_fail_def initial_def)
  then have "inv_fail re (devices re ! i) (fst (thread_executor re sched))"
    using assms(1) by (simp add: fin_exec inv_fail_exec initial_def)
  moreover have "py_getitem (output_data (fst (thread_executor re sched))) (devices re ! i) \<noteq> None"
    using fin_present[OF assms(2)] by (simp add: py_getitem_None)
  ultimately show ?thesis by (auto simp: inv_fail_def)
qed

lemma log_mem:
  "(d, e) \<in> set (log_exceptions ts fs) \<longleftrightarrow>
     (\<exists>i. (d, i) \<in> set fs \<and> future_exception (ts ! i) = Some e)"
  by (induction fs) (auto split: option.splits)

lemma setitem_keeps: "(d, j) \<in> set fs \<Longrightarrow> k \<noteq> d \<Longrightarrow> (d, j) \<in> set (py_setitem fs k v)"
  by (induction fs) auto

lemma setitem_has: "(k, v) \<in> set (py_setitem fs k v)"
  by (induction fs) auto

lemma submit_all_keeps:
  "(d, j) \<in> set fs \<Longrightarrow> d \<notin> set devs \<Longrightarrow> (d, j) \<in> set (submit_all devs i fs)"
  by (induction devs arbitrary: i fs) (auto simp: setitem_keeps)

lemma submit_all_last:
  assumes "k < length devs" "devs ! k \<notin> set (drop (Suc k) devs)"
  shows "(devs ! k, i + k) \<in> set (submit_all devs i fs)"
  using assms
proof (induction devs arbitrary: i fs k)
  case Nil
  then show ?case by simp
next
  case (Cons dev devs)
  show ?case
  proof (cases k)
    case 0
    then show ?thesis using Cons.prems by (simp add: submit_all_keeps setitem_has)
  next
    case (Suc k')
    then show ?thesis using Cons.IH[of k' "Suc i" "py_setitem fs dev i"] Cons.prems by simp
  qed
qed


subsection \<open>The report\<close>

lemma write_commands_eq:
  "write_commands p items acc = acc @ concat (map (text_section p) items)"
  by (induction items arbitrary: acc) (auto simp: text_section_def separator_line_def)

lemma write_text_files_eq:
  "write_text_files re n od files =
     files @ map (\<lambda>k. (os_path_join (output_dir (the_form re))
                          (text_filename (snd (od ! k)) (now (the_world re) (n + k))),
                        text_body (snd (od ! k)))) [0..<length od]"
proof (induction od arbitrary: n files)
  case Nil
  then show ?case by simp
next
  case (Cons p od)
  obtain dev data where p: "p = (dev, data)" by (cases p)
  show ?case
    by (simp add: p Cons.IH Let_def write_commands_eq text_body_def text_filename_def
        strftime_date_def map_upt_Suc del: upt_Suc)
qed

lemma setitem_fresh: "k \<notin> fst ` set d \<Longrightarrow> py_setitem d k v = d @ [(k, v)]"
  by (induction d) auto

lemma dump_rows_eq:
  assumes "\<forall>k\<in>fst ` set dump_data. k < idx"
  shows "dump_rows idx od dump_data =
     dump_data @ map (\<lambda>k. (idx + k, table_row (snd (od ! k)))) [0..<length od]"
  using assms
proof (induction od arbitrary: idx dump_data)
  case Nil
  then show ?case by simp
next
  case (Cons p od)
  obtain dev data where p: "p = (dev, data)" by (cases p)
  have fresh: "idx \<notin> fst ` set dump_data" using Cons.prems by auto
  have "\<forall>k\<in>fst ` set (dump_data @ [(idx, table_row data)]). k < Suc idx"
    using Cons.prems by auto
  then have "dump_rows (Suc idx) od (dump_data @ [(idx, table_row data)]) =
      (dump_data @ [(idx, table_row data)])
        @ map (\<lambda>k. (Suc idx + k, table_row (snd (od ! k)))) [0..<length od]"
    by (rule Cons.IH)
  then show ?case
    by (simp add: p setitem_fresh[OF fresh] map_upt_Suc table_row_def[symmetric] del: upt_Suc)
qed

lemma py_getitem_update_distinct:
  "distinct (py_keys e) \<Longrightarrow>
   py_getitem (py_update d e) k =
     (case py_getitem e k of None \<Rightarrow> py_getitem d k | Some v \<Rightarrow> Some v)"
proof (induction e arbitrary: d)
  case Nil
  then show ?case by simp
next
  case (Cons p e)
  obtain k' v' where p: "p = (k', v')" by (cases p)
  have d: "distinct (py_keys e)" and n: "k' \<notin> set (py_keys e)"
    using Cons.prems by (auto simp: py_keys_def p)
  show ?case
  proof (cases "k' = k")
    case True
    then have "py_getitem e k = None" using n by (simp add: py_getitem_None)
    then show ?thesis using True by (simp add: p Cons.IH[OF d] py_getitem_setitem)
  next
    case False
    then show ?thesis by (simp add: p Cons.IH[OF d] py_getitem_setitem split: option.splits)
  qed
qed

lemma table_row_column:
  assumes "distinct (py_keys (command_output data))"
  shows "py_getitem (table_row data) c =
     (case py_getitem (command_output data) c of
        Some out \<Rightarrow> Some out
      | None \<Rightarrow> if c = ''Device'' then Some (butlast (prompt data)) else None)"
  by (simp add: table_row_def py_getitem_update_distinct[OF assms] split: option.splits)

subsection \<open>The outcome of a task from what its device answers\<close>

lemma final_run_batch:
  "tasks (final (run_batch re sched)) = tasks (fst (thread_executor re sched))"
  "output_data (final (run_batch re sched)) = output_data (fst (thread_executor re sched))"
  "sent_by (final (run_batch re sched)) i = sent_by (fst (thread_executor re sched)) i"
  "closed_by (final (run_batch re sched)) i = closed_by (fst (thread_executor re sched)) i"
  "errors (run_batch re sched) = snd (thread_executor re sched)"
  "written (run_batch re sched) = generate_report re (output_data (fst (thread_executor re sched)))"
  by (simp_all add: run_batch_def Let_def sent_by_def closed_by_def split: prod.splits)

lemmas eval_defs = run_batch_def make_run_event_def thread_executor_def drain_def task_bound_def
  initial_def step_def runnable_def running_def max_workers_def open_session_def make_proxy_def
  empty_entry_def available_progress_def command_progress_def py_keys_def
  demo_form_def demo_world_def demo_session_def demo_now_def Let_def

lemma rest_success:
  assumes "open_session re i (devices re ! i) = Inr h" and "commands re \<noteq> []"
    and "length raws = length (commands re)"
    and "\<forall>j<length (commands re). sendCommand h j (commands re ! j) = Inr (raws ! j)"
  shows "r_exn (the_rest re i (devices re ! i) Queued) = None"
    and "r_closed (the_rest re i (devices re ! i) Queued) = 1"
    and "r_sent (the_rest re i (devices re ! i) Queued) = commands re"
proof -
  have "cmd_loop h 0 (commands re) = (length (commands re), None)"
    using cmd_loop_closed(1)[of raws "length (commands re)" "commands re" h] assms by simp
  then show "r_exn (the_rest re i (devices re ! i) Queued) = None"
    and "r_closed (the_rest re i (devices re ! i) Queued) = 1"
    and "r_sent (the_rest re i (devices re ! i) Queued) = commands re"
    using assms(1,2) by (simp_all add: emit_def rest_L90_def rest_L110_def rest_loop_def)
qed

lemma rest_failure:
  assumes "open_session re i (devices re ! i) = Inr h"
    and "length raws = m" and "m < length (commands re)"
    and "\<forall>j<m. sendCommand h j (commands re ! j) = Inr (raws ! j)"
    and "sendCommand h m (commands re ! m) = Inl e"
  shows "r_exn (the_rest re i (devices re ! i) Queued) = Some e"
    and "r_closed (the_rest re i (devices re ! i) Queued) = 0"
    and "r_sent (the_rest re i (devices re ! i) Queued) = take (Suc m) (commands re)"
proof -
  have "cmd_loop h 0 (commands re) = (m, Some e)"
    using cmd_loop_closed(2)[of raws m "commands re" h e] assms by simp
  then show "r_exn (the_rest re i (devices re ! i) Queued) = Some e"
    and "r_closed (the_rest re i (devices re ! i) Queued) = 0"
    and "r_sent (the_rest re i (devices re ! i) Queued) = take (Suc m) (commands re)"
    using assms(1,3) by (auto simp: emit_def rest_L90_def rest_L110_def rest_loop_def)
qed


lemma entry_closed:
  assumes "open_session re i (devices re ! i) = Inr h" and "commands re \<noteq> []"
    and "length raws = m" and "m \<le> length (commands re)"
    and "\<forall>j<m. sendCommand h j (commands re ! j) = Inr (raws ! j)"
    and "stops_at h (commands re) m"
  shows "entry_L90 re i (devices re ! i) empty_entry =
     \<lparr>prompt = handler_prompt h,
      command_output = py_update [] (zip (take m (commands re)) (map py_strip raws))\<rparr>"
  using assms loop_output_closed[of raws m "commands re" h]
  by (simp add: entry_L90_def entry_L110_def entry_loop_def empty_entry_def)

lemma closed_count:
  assumes "open_session re i (devices re ! i) = Inr h" and "commands re \<noteq> []"
    and "length raws = m" and "m \<le> length (commands re)"
    and "\<forall>j<m. sendCommand h j (commands re ! j) = Inr (raws ! j)"
    and "stops_at h (commands re) m"
  shows "r_closed (the_rest re i (devices re ! i) Queued) = (if m = length (commands re) then 1 else 0)"
proof (cases "m = length (commands re)")
  case True
  then show ?thesis using rest_success(2)[of re i h raws] assms by simp
next
  case False
  then have m: "m < length (commands re)" using assms(4) by simp
  then obtain e where "sendCommand h m (commands re ! m) = Inl e"
    using assms(6) False by (auto simp: stops_at_def isl_def)
  then show ?thesis using rest_failure(2)[of re i h raws m e] assms m False by simp
qed

lemma keys_update_zip:
  "length xs = length ys \<Longrightarrow> py_keys (py_update [] (zip xs ys)) = first_occurrences xs"
  unfolding py_keys_update first_occurrences_def by (simp add: py_keys_def)

lemma first_occurrences_props:
  "distinct (first_occurrences xs)" "set (first_occurrences xs) = set xs"
  "length (first_occurrences xs) \<le> length xs"
proof -
  show d: "distinct (first_occurrences xs)"
    by (simp add: first_occurrences_def foldl_add_key_distinct)
  show s: "set (first_occurrences xs) = set xs"
    by (simp add: first_occurrences_def foldl_add_key_set)
  have "length (first_occurrences xs) = card (set xs)"
    using d s by (metis distinct_card)
  then show "length (first_occurrences xs) \<le> length xs" by (simp add: card_length)
qed

lemma py_strip_split:
  "raw = takeWhile py_isspace raw @ py_strip raw
     @ rev (takeWhile py_isspace (rev (dropWhile py_isspace raw)))"
proof -
  let ?x = "dropWhile py_isspace raw"
  have "?x = rev (dropWhile py_isspace (rev ?x)) @ rev (takeWhile py_isspace (rev ?x))"
    by (metis rev_append rev_rev_ident takeWhile_dropWhile_id)
  then have "?x = py_rstrip ?x @ rev (takeWhile py_isspace (rev ?x))"
    by (simp add: py_rstrip_def)
  moreover have "raw = takeWhile py_isspace raw @ ?x" by simp
  ultimately show ?thesis by (metis py_strip_def py_lstrip_def)
qed

lemma py_strip_ends:
  assumes "py_strip raw \<noteq> []"
  shows "\<not> py_isspace (hd (py_strip raw))" and "\<not> py_isspace (last (py_strip raw))"
proof -
  let ?x = "dropWhile py_isspace raw"
  let ?y = "dropWhile py_isspace (rev ?x)"
  have s: "py_strip raw = rev ?y" by (simp add: py_strip_def py_rstrip_def py_lstrip_def)
  then have y: "?y \<noteq> []" using assms by simp
  then have "\<not> py_isspace (hd ?y)" by (rule hd_dropWhile)
  then show "\<not> py_isspace (last (py_strip raw))" using y by (simp add: s last_rev)
  have x: "?x \<noteq> []"
  proof
    assume a: "?x = []"
    have "?y = dropWhile py_isspace (rev [])" by (simp only: a)
    with y show False by simp
  qed
  then have hx: "\<not> py_isspace (hd ?x)" by (rule hd_dropWhile)
  have "?x = rev ?y @ rev (takeWhile py_isspace (rev ?x))"
    by (metis rev_append rev_rev_ident takeWhile_dropWhile_id)
  then have "hd ?x = hd (rev ?y)" using y by (metis hd_append2 rev_is_Nil_conv)
  then show "\<not> py_isspace (hd (py_strip raw))" using hx by (simp add: s)
qed

lemma zip_split:
  assumes "j < length xs" "length xs = length ys"
  shows "zip xs ys =
     zip (take j xs) (take j ys) @ (xs ! j, ys ! j) # zip (drop (Suc j) xs) (drop (Suc j) ys)"
proof -
  have "zip xs ys = zip (take j xs @ drop j xs) (take j ys @ drop j ys)" by simp
  also have "\<dots> = zip (take j xs) (take j ys) @ zip (drop j xs) (drop j ys)"
    using assms by (intro zip_append) simp
  also have "drop j xs = xs ! j # drop (Suc j) xs" using assms by (simp add: Cons_nth_drop_Suc)
  also have "drop j ys = ys ! j # drop (Suc j) ys" using assms by (simp add: Cons_nth_drop_Suc)
  finally show ?thesis by simp
qed

subsection \<open>The order of the insertions\<close>

lemma keys_step:
  assumes "inv1 re s"
  shows "py_keys (output_data (step re j s)) =
     (if runnable (tasks s) j \<and> j < length (devices re) \<and> at_insert (tasks s ! j)
      then add_key (py_keys (output_data s)) (devices re ! j) else py_keys (output_data s))"
proof (cases "runnable (tasks s) j \<and> j < length (devices re)")
  case False
  then have "step re j s = s" by (auto simp: step_def)
  with False show ?thesis by auto
next
  case True
  then have j: "j < length (devices re)" by simp
  have pre: "past_insert (tasks s ! j) \<longrightarrow> devices re ! j \<in> set (py_keys (output_data s))"
    using assms(1) j by (auto simp: inv1_def)
  have "output_data (step re j s) = output_data (snd (snapshot_task re j (devices re ! j) (tasks s ! j) s))"
    using True by (simp add: step_def split: prod.splits)
  then show ?thesis using keys_snapshot_task_eq[OF pre] True by simp
qed

lemma past_insert_step:
  assumes "length (tasks s) = length (devices re)" "k < length (devices re)"
  shows "past_insert (tasks (step re j s) ! k) \<longleftrightarrow>
     past_insert (tasks s ! k) \<or>
     (k = j \<and> runnable (tasks s) j \<and> j < length (devices re) \<and> at_insert (tasks s ! j))"
proof (cases "runnable (tasks s) j \<and> j < length (devices re)")
  case False
  then have "step re j s = s" by (auto simp: step_def)
  with False show ?thesis by auto
next
  case True
  have ne: "length (devices re) \<noteq> 0" using assms(2) by auto
  show ?thesis
  proof (cases "k = j")
    case False
    then show ?thesis using True by (simp add: tasks_step)
  next
    case kj: True
    have "tasks (step re j s) ! j = fst (snapshot_task re j (devices re ! j) (tasks s ! j) s)"
      using True assms by (simp add: tasks_step)
    then show ?thesis
      using past_insert_snapshot_task_eq[OF ne, of j "devices re ! j" "tasks s ! j" s] True kj
      by simp
  qed
qed

lemma past_insert_exec:
  "length (tasks s) = length (devices re) \<Longrightarrow> k < length (devices re) \<Longrightarrow>
   past_insert (tasks s ! k) \<Longrightarrow> past_insert (tasks (exec re sched s) ! k)"
  by (induction sched arbitrary: s) (auto simp: past_insert_step)

lemma keys_exec:
  "inv1 re s \<Longrightarrow>
   py_keys (output_data (exec re sched s)) =
     foldl add_key (py_keys (output_data s)) (map (\<lambda>i. devices re ! i) (inserts re sched s))"
  by (induction sched arbitrary: s) (auto simp: keys_step inv1_step)

lemma inserts_once:
  assumes "length (tasks s) = length (devices re)"
  shows "distinct (inserts re sched s) \<and>
     set (inserts re sched s) =
       {k. k < length (devices re) \<and> \<not> past_insert (tasks s ! k) \<and>
           past_insert (tasks (exec re sched s) ! k)}"
  using assms
proof (induction sched arbitrary: s)
  case Nil
  then show ?case by auto
next
  case (Cons j sched)
  let ?s = "step re j s"
  let ?c = "runnable (tasks s) j \<and> j < length (devices re) \<and> at_insert (tasks s ! j)"
  have len: "length (tasks ?s) = length (devices re)" using Cons.prems by simp
  have IH: "distinct (inserts re sched ?s)"
    "set (inserts re sched ?s) =
       {k. k < length (devices re) \<and> \<not> past_insert (tasks ?s ! k) \<and>
           past_insert (tasks (exec re sched ?s) ! k)}"
    using Cons.IH[OF len] by auto
  have p: "past_insert (tasks ?s ! k) \<longleftrightarrow> past_insert (tasks s ! k) \<or> (k = j \<and> ?c)"
    if "k < length (devices re)" for k
    using past_insert_step[OF Cons.prems that, of j] by simp
  show ?case
  proof (cases ?c)
    case False
    then show ?thesis using IH p by auto
  next
    case True
    then have j: "j < length (devices re)" by simp
    have nj: "\<not> past_insert (tasks s ! j)" using True by (cases "tasks s ! j") auto
    have pj: "past_insert (tasks ?s ! j)" using p[OF j] True by simp
    then have ej: "past_insert (tasks (exec re sched ?s) ! j)"
      using past_insert_exec[OF len j] by simp
    have "j \<notin> set (inserts re sched ?s)" using IH(2) pj by simp
    moreover have "set (inserts re sched ?s) \<union> {j} =
       {k. k < length (devices re) \<and> \<not> past_insert (tasks s ! k) \<and>
           past_insert (tasks (exec re sched ?s) ! k)}"
      using IH(2) p nj ej j by auto
    ultimately show ?thesis using IH(1) True by auto
  qed
qed

lemma insertion_order_perm:
  "distinct (insertion_order re sched) \<and> set (insertion_order re sched) = {..<length (devices re)}"
proof -
  have l: "length (tasks (initial re)) = length (devices re)" by (simp add: initial_def)
  have a: "\<not> past_insert (tasks (initial re) ! k)" if "k < length (devices re)" for k
    using that by (simp add: initial_def)
  have b: "past_insert (tasks (exec re (sched @ drain re) (initial re)) ! k)"
    if "k < length (devices re)" for k
    using all_finished[OF that, of sched] finished_past_insert by (simp add: fin_exec)
  show ?thesis
    using inserts_once[OF l, of "sched @ drain re"] a b by (auto simp: insertion_order_def)
qed

lemma keys_insertion_order:
  "py_keys (output_data (fst (thread_executor re sched))) =
     first_occurrences (map (\<lambda>i. devices re ! i) (insertion_order re sched))"
  using keys_exec[OF inv1_initial, of re "sched @ drain re"]
  by (simp add: fin_exec insertion_order_def first_occurrences_def initial_def py_keys_def)

subsection \<open>The increments of a task\<close>

lemma progress_snapshot_task:
  "progress (snd (snapshot_task re i dev t s)) = progress s @ emits re t"
  by (cases t) (auto split: sum.splits option.splits)

lemma progress_step:
  "progress (step re j s) =
     progress s @ (if runnable (tasks s) j \<and> j < length (devices re) then emits re (tasks s ! j) else [])"
  using progress_snapshot_task[of re j "devices re ! j" "tasks s ! j" s]
  by (auto simp: step_def split: prod.splits)

lemma progress_exec:
  "progress (exec re sched s) = progress s @ map snd (emissions re sched s)"
  by (induction sched arbitrary: s) (auto simp: progress_step comp_def)

lemma progress_run_batch:
  "progress (final (run_batch re sched)) = 9 # map snd (emitted re sched) @ [2]"
  using progress_exec[of re "sched @ drain re" "initial re"]
  by (simp add: run_batch_def thread_executor_def emitted_def initial_def Let_def)

lemma fails_step:
  assumes "i < length (devices re)" "open_fails re i" "length (tasks s) = length (devices re)"
    "pre_open (tasks s ! i)"
  shows "pre_open (tasks (step re j s) ! i) \<and>
    (\<not> before88 (tasks s ! i) \<longrightarrow> \<not> before88 (tasks (step re j s) ! i)) \<and>
    map snd (filter (\<lambda>p. fst p = i)
      (map (Pair j) (drop (length (progress s)) (progress (step re j s))))) =
      (if before88 (tasks s ! i) \<and> \<not> before88 (tasks (step re j s) ! i)
       then [available_progress re * 0.1] else [])"
proof (cases "j = i \<and> runnable (tasks s) j")
  case False
  have t: "tasks (step re j s) ! i = tasks s ! i"
  proof (cases "j = i")
    case True
    then have "step re j s = s" using False by (simp add: step_def)
    then show ?thesis by simp
  next
    case False
    then show ?thesis using assms by (simp add: tasks_step)
  qed
  have "filter (\<lambda>p. fst p = i)
      (map (Pair j) (drop (length (progress s)) (progress (step re j s)))) = []"
    using False by (auto simp: progress_step filter_empty_conv)
  then show ?thesis using assms(4) t by simp
next
  case True
  then have ji: "j = i" and r: "runnable (tasks s) i" by blast+
  have t: "tasks (step re j s) ! i = fst (snapshot_task re i (devices re ! i) (tasks s ! i) s)"
    using assms r unfolding ji by (simp add: tasks_step)
  have ne: "length (devices re) \<noteq> 0" using assms(1) by auto
  obtain e where e: "open_session re i (devices re ! i) = Inl e"
    using assms(2) by (auto simp: open_fails_def isl_def)
  show ?thesis using True assms(1,4) ne e unfolding t progress_step
    by (cases "tasks s ! i") (auto simp: comp_def)
qed

lemma fails_exec:
  assumes "i < length (devices re)" "open_fails re i"
  shows "length (tasks s) = length (devices re) \<Longrightarrow> pre_open (tasks s ! i) \<Longrightarrow>
    (\<not> before88 (tasks s ! i) \<longrightarrow> \<not> before88 (tasks (exec re sched s) ! i)) \<and>
    map snd (filter (\<lambda>p. fst p = i) (emissions re sched s)) =
      (if before88 (tasks s ! i) \<and> \<not> before88 (tasks (exec re sched s) ! i)
       then [available_progress re * 0.1] else [])"
proof (induction sched arbitrary: s)
  case Nil
  then show ?case by simp
next
  case (Cons j sched)
  note st = fails_step[OF assms Cons.prems, of j]
  have len: "length (tasks (step re j s)) = length (devices re)" using Cons.prems by simp
  note ih = Cons.IH[OF len conjunct1[OF st]]
  show ?case using st ih by (auto simp del: before88.simps)
qed

lemma task_progress_open_fails:
  assumes "i < length (devices re)" "open_fails re i"
  shows "task_progress re sched i = [available_progress re * 0.1]"
proof -
  have f: "finished (tasks (exec re (sched @ drain re) (initial re)) ! i)"
    using all_finished[OF assms(1), of sched] by (simp add: fin_exec)
  then have nb: "\<not> before88 (tasks (exec re (sched @ drain re) (initial re)) ! i)"
    by (cases "tasks (exec re (sched @ drain re) (initial re)) ! i") auto
  have "length (tasks (initial re)) = length (devices re)" "pre_open (tasks (initial re) ! i)"
    "before88 (tasks (initial re) ! i)"
    using assms(1) by (simp_all add: initial_def)
  then show ?thesis using fails_exec[OF assms, of "initial re" "sched @ drain re"] nb
    by (simp add: task_progress_def emitted_def)
qed

subsection \<open>Sessions closed and entries left, for every command list\<close>

lemma r_closed_le: "r_closed (the_rest re i dev Queued) \<le> 1"
  by (simp add: emit_def rest_L90_def rest_L110_def rest_loop_def raised_def
      split: sum.splits prod.splits option.splits)

lemma entry_closed_any:
  assumes "open_session re i (devices re ! i) = Inr h"
    and "length raws = m" and "m \<le> length (commands re)"
    and "\<forall>j<m. sendCommand h j (commands re ! j) = Inr (raws ! j)"
    and "stops_at h (commands re) m"
  shows "entry_L90 re i (devices re ! i) empty_entry =
     \<lparr>prompt = handler_prompt h,
      command_output = py_update [] (zip (take m (commands re)) (map py_strip raws))\<rparr>"
proof (cases "commands re = []")
  case True
  then show ?thesis using assms(1,3)
    by (simp add: entry_L90_def entry_L110_def empty_entry_def)
next
  case False
  then show ?thesis using entry_closed[OF assms(1) False assms(2-5)] by simp
qed

lemma good_entry_length:
  assumes "good_entry re en"
  shows "length (command_output en) \<le> length (commands re)"
proof -
  have "length (py_keys (command_output en)) = card (set (py_keys (command_output en)))"
    using assms by (simp add: good_entry_def distinct_card)
  then have "length (command_output en) = card (set (py_keys (command_output en)))"
    by (simp add: py_keys_def)
  also have "\<dots> \<le> card (set (commands re))"
    using assms by (intro card_mono) (auto simp: good_entry_def)
  also have "\<dots> \<le> length (commands re)" by (rule card_length)
  finally show ?thesis .
qed

section \<open>The claims\<close>

subsection \<open>C1: the keys of the result\<close>

text \<open>
  Claim C1, as amended. Whatever the interleaving of the device tasks, \<open>output_data\<close> ends with
  exactly one entry per distinct device identifier: its keys are pairwise different and are the
  identifiers of the device list, so a list without repetitions gets as many entries as it has
  devices. Every task executes line 82 exactly once, and the iteration order of \<open>output_data\<close>
  is the order in which the tasks did so: the identifiers of the tasks in that order, each where
  it comes first. When the tasks execute line 82 in submission order, whatever the order in
  which they complete, it is the order of the first occurrences in the device list.
\<close>

theorem result_keys:
  "distinct (py_keys (output_data (final (run_batch re sched)))) \<and>
   set (py_keys (output_data (final (run_batch re sched)))) = set (devices re) \<and>
   (distinct (devices re) \<longrightarrow>
      length (output_data (final (run_batch re sched))) = length (devices re)) \<and>
   distinct (insertion_order re sched) \<and>
   set (insertion_order re sched) = {..<length (devices re)} \<and>
   py_keys (output_data (final (run_batch re sched))) =
     first_occurrences (map (\<lambda>i. devices re ! i) (insertion_order re sched)) \<and>
   (ordered_inserts re sched (initial re) \<longrightarrow>
      py_keys (output_data (final (run_batch re sched))) = first_occurrences (devices re))"
proof -
  let ?od = "output_data (fst (thread_executor re sched))"
  have d: "distinct (py_keys ?od)" using fin_inv_keys[of re sched] by (simp add: inv_keys_def)
  have s: "set (py_keys ?od) = set (devices re)" by (rule fin_keys_set)
  have l: "length ?od = length (devices re)" if "distinct (devices re)"
  proof -
    have "length (py_keys ?od) = card (set (py_keys ?od))" using d by (simp add: distinct_card)
    also have "\<dots> = length (devices re)" using s that by (simp add: distinct_card)
    finally show ?thesis by (simp add: py_keys_def)
  qed
  show ?thesis
    using d s l fin_keys_ordered[of re sched] insertion_order_perm[of re sched]
      keys_insertion_order[of re sched]
    by (simp add: final_run_batch)
qed

text \<open>
  The two tasks of \<open>batch_two\<close> insert in submission order under \<open>finishing_first\<close>, task 1
  ends while task 0 is still at line 88, and the keys come out in the order of the device
  list. Under \<open>overtaking\<close> task 1 executes line 82 first and its key comes first. The two
  tasks of \<open>batch_twice\<close> insert the same key.
\<close>

theorem result_keys_witness:
  "distinct (devices batch_two) \<and>
   ordered_inserts batch_two finishing_first (initial batch_two) \<and>
   finished (tasks (exec batch_two finishing_first (initial batch_two)) ! 1) \<and>
   \<not> finished (tasks (exec batch_two finishing_first (initial batch_two)) ! 0) \<and>
   length (output_data (final (run_batch batch_two finishing_first))) = 2 \<and>
   py_keys (output_data (final (run_batch batch_two finishing_first))) = [''a'', ''b''] \<and>
   insertion_order batch_two overtaking = [1, 0] \<and>
   py_keys (output_data (final (run_batch batch_two overtaking))) = [''b'', ''a''] \<and>
   insertion_order batch_twice [] = [0, 1] \<and>
   py_keys (output_data (final (run_batch batch_twice []))) = [''a'']"
proof -
  have dev: "devices batch_two = [''a'', ''b'']"
    by (simp add: batch_two_def make_run_event_def demo_form_def)
  have dev2: "devices batch_twice = [''a'', ''a'']"
    by (simp add: batch_twice_def make_run_event_def demo_form_def)
  have h1: "distinct (devices batch_two)" by (simp add: dev)
  have h2: "ordered_inserts batch_two finishing_first (initial batch_two)"
    unfolding batch_two_def finishing_first_def by code_simp
  have e1: "finished (tasks (exec batch_two finishing_first (initial batch_two)) ! 1)"
    unfolding batch_two_def finishing_first_def by code_simp
  have e0: "\<not> finished (tasks (exec batch_two finishing_first (initial batch_two)) ! 0)"
    unfolding batch_two_def finishing_first_def by code_simp
  have f: "first_occurrences (devices batch_two) = [''a'', ''b'']"
    by (simp add: dev first_occurrences_def add_key_def)
  have o1: "insertion_order batch_two overtaking = [1, 0]"
    unfolding batch_two_def overtaking_def by code_simp
  have o2: "insertion_order batch_twice [] = [0, 1]"
    unfolding batch_twice_def by code_simp
  have f1: "first_occurrences (map (\<lambda>i. devices batch_two ! i) [1, 0]) = [''b'', ''a'']"
    by (simp add: dev first_occurrences_def add_key_def)
  have f2: "first_occurrences (map (\<lambda>i. devices batch_twice ! i) [0, 1]) = [''a'']"
    by (simp add: dev2 first_occurrences_def add_key_def)
  from result_keys[of batch_two finishing_first] h1 h2
  have a: "length (output_data (final (run_batch batch_two finishing_first))) = length (devices batch_two)"
    and b: "py_keys (output_data (final (run_batch batch_two finishing_first))) =
      first_occurrences (devices batch_two)"
    by blast+
  from result_keys[of batch_two overtaking]
  have c: "py_keys (output_data (final (run_batch batch_two overtaking))) =
      first_occurrences (map (\<lambda>i. devices batch_two ! i) (insertion_order batch_two overtaking))"
    by blast
  from result_keys[of batch_twice "[]"]
  have d: "py_keys (output_data (final (run_batch batch_twice []))) =
      first_occurrences (map (\<lambda>i. devices batch_twice ! i) (insertion_order batch_twice []))"
    by blast
  have c': "py_keys (output_data (final (run_batch batch_two overtaking))) = [''b'', ''a'']"
    using c f1 by (simp only: o1)
  have d': "py_keys (output_data (final (run_batch batch_twice []))) = [''a'']"
    using d f2 by (simp only: o2)
  show ?thesis using h1 h2 e1 e0 a b f dev o1 o2 c' d' by simp
qed

text \<open>
  The claim as stated fails twice. A device listed twice gets one entry, not two; and when the
  second of two tasks executes line 82 before the first, the keys come out in the opposite
  order of the device list.
\<close>

theorem result_keys_counterexample:
  "devices batch_twice = [''a'', ''a''] \<and>
   py_keys (output_data (final (run_batch batch_twice []))) = [''a''] \<and>
   length (output_data (final (run_batch batch_twice []))) \<noteq> length (devices batch_twice) \<and>
   devices batch_two = [''a'', ''b''] \<and>
   py_keys (output_data (final (run_batch batch_two overtaking))) = [''b'', ''a''] \<and>
   py_keys (output_data (final (run_batch batch_two overtaking))) \<noteq> devices batch_two"
proof -
  have 1: "devices batch_twice = [''a'', ''a'']"
    by (simp add: batch_twice_def make_run_event_def demo_form_def)
  have 2: "py_keys (output_data (final (run_batch batch_twice []))) = [''a'']"
    unfolding batch_twice_def by code_simp
  have 3: "devices batch_two = [''a'', ''b'']"
    by (simp add: batch_two_def make_run_event_def demo_form_def)
  have 4: "py_keys (output_data (final (run_batch batch_two overtaking))) = [''b'', ''a'']"
    unfolding batch_two_def overtaking_def by code_simp
  have 5: "length (output_data (final (run_batch batch_twice []))) = 1"
    using 2 by (metis length_map py_keys_def length_Cons list.size(3) One_nat_def)
  show ?thesis using 1 2 3 4 5 by simp
qed

subsection \<open>C2: a command that fails\<close>

text \<open>
  Claim C2, as amended. For a device whose session opens and whose command loop stops after
  \<open>m\<close> commands (all of them completed, or command \<open>m + 1\<close> failed), whatever the
  interleaving: \<open>close\<close> is never called more than once, and exactly once when the command
  list is not empty and every command has succeeded; every \<open>command_output\<close> dictionary of
  the result is keyed by commands of the list and holds no more entries than there are
  commands; and when the device is listed once, its \<open>command_output\<close> holds the stripped
  outputs of the \<open>m\<close> completed commands, one entry per distinct command among them in the
  order of their first occurrence, so exactly \<open>m\<close> entries when these commands are pairwise
  different.
\<close>

theorem command_failure_outputs:
  assumes "i < length (devices re)"
    and "open_session re i (devices re ! i) = Inr h"
    and "length raws = m" and "m \<le> length (commands re)"
    and "\<forall>j<m. sendCommand h j (commands re ! j) = Inr (raws ! j)"
    and "stops_at h (commands re) m"
  shows "closed_by (final (run_batch re sched)) i \<le> 1 \<and>
    (commands re \<noteq> [] \<and> m = length (commands re) \<longrightarrow>
       closed_by (final (run_batch re sched)) i = 1) \<and>
    (\<forall>p\<in>set (output_data (final (run_batch re sched))).
       set (py_keys (command_output (snd p))) \<subseteq> set (commands re) \<and>
       length (command_output (snd p)) \<le> length (commands re)) \<and>
    (unique re i \<longrightarrow>
       (\<exists>en. py_getitem (output_data (final (run_batch re sched))) (devices re ! i) = Some en \<and>
          command_output en = py_update [] (zip (take m (commands re)) (map py_strip raws)) \<and>
          py_keys (command_output en) = first_occurrences (take m (commands re)) \<and>
          length (command_output en) \<le> m \<and>
          (distinct (take m (commands re)) \<longrightarrow> length (command_output en) = m)))"
proof -
  let ?co = "py_update [] (zip (take m (commands re)) (map py_strip raws))"
  have c0: "closed_by (final (run_batch re sched)) i \<le> 1"
    using fin_closed[OF assms(1), of sched] r_closed_le[of re i "devices re ! i"]
    by (simp add: final_run_batch)
  have c1: "closed_by (final (run_batch re sched)) i = 1"
    if "commands re \<noteq> []" "m = length (commands re)"
    using fin_closed[OF assms(1), of sched] closed_count[OF assms(2) that(1) assms(3-6)] that(2)
    by (simp add: final_run_batch)
  have g: "set (py_keys (command_output (snd p))) \<subseteq> set (commands re) \<and>
      length (command_output (snd p)) \<le> length (commands re)"
    if "p \<in> set (output_data (final (run_batch re sched)))" for p
  proof -
    have "good_entry re (snd p)"
      using fin_inv_entries[of re sched] that by (simp add: inv_entries_def final_run_batch)
    then show ?thesis using good_entry_length by (simp add: good_entry_def)
  qed
  have k: "py_keys ?co = first_occurrences (take m (commands re))"
    using assms(3,4) by (intro keys_update_zip) simp
  have l: "length ?co = length (first_occurrences (take m (commands re)))"
    using k by (metis length_map py_keys_def)
  have l1: "length ?co \<le> m"
    using l first_occurrences_props(3)[of "take m (commands re)"] assms(4) by simp
  have d: "length ?co = m" if "distinct (take m (commands re))"
    using l that assms(4) by (simp add: first_occurrences_distinct)
  have e: "py_getitem (output_data (final (run_batch re sched))) (devices re ! i) =
      Some \<lparr>prompt = handler_prompt h, command_output = ?co\<rparr>" if "unique re i"
    using fin_entry[OF that assms(1), of sched] entry_closed_any[OF assms(2-6)]
    by (simp add: final_run_batch)
  show ?thesis using c0 c1 g e k l1 d by simp
qed

text \<open>
  On \<open>batch_one\<close> the one command succeeds and the session is closed once. On \<open>batch_repeat\<close>
  the third command fails after the same command has succeeded twice: one entry.
\<close>

theorem command_failure_outputs_witness:
  "unique batch_one 0 \<and> open_session batch_one 0 (devices batch_one ! 0) = Inr router1 \<and>
   commands batch_one \<noteq> [] \<and> stops_at router1 (commands batch_one) 1 \<and>
   closed_by (final (run_batch batch_one [])) 0 = 1 \<and>
   unique batch_repeat 0 \<and> open_session batch_repeat 0 (devices batch_repeat ! 0) = Inr flaky3 \<and>
   stops_at flaky3 (commands batch_repeat) 2 \<and>
   closed_by (final (run_batch batch_repeat [])) 0 \<le> 1 \<and>
   (\<exists>en. py_getitem (output_data (final (run_batch batch_repeat []))) ''r3'' = Some en \<and>
      command_output en = [(''show clock'', ''ok'')] \<and>
      set (py_keys (command_output en)) \<subseteq> set (commands batch_repeat) \<and>
      length (command_output en) \<le> length (commands batch_repeat))"
proof -
  have d1: "devices batch_one = [''10.0.0.1'']" and c1: "commands batch_one = [''show ip int brief'']"
    by (simp_all add: batch_one_def make_run_event_def demo_form_def)
  have u1: "unique batch_one 0" by (simp add: unique_def d1)
  have o1: "open_session batch_one 0 (devices batch_one ! 0) = Inr router1"
    by (simp add: batch_one_def eval_defs)
  have s1: "stops_at router1 (commands batch_one) 1" by (simp add: stops_at_def c1)
  have r1: "\<forall>j<1. sendCommand router1 j (commands batch_one ! j) = Inr ([''Output''] ! j)"
    by (simp add: router1_def)
  have w1: "closed_by (final (run_batch batch_one [])) 0 = 1"
    using command_failure_outputs[of 0 batch_one router1 "[''Output'']" 1 "[]"] o1 s1 r1 d1 c1
    by simp
  have d2: "devices batch_repeat = [''r3'']"
    and c2: "commands batch_repeat = [''show clock'', ''show clock'', ''show version'']"
    by (simp_all add: batch_repeat_def make_run_event_def demo_form_def)
  have u2: "unique batch_repeat 0" by (simp add: unique_def d2)
  have o2: "open_session batch_repeat 0 (devices batch_repeat ! 0) = Inr flaky3"
    by (simp add: batch_repeat_def eval_defs)
  have s2: "stops_at flaky3 (commands batch_repeat) 2"
    by (simp add: stops_at_def c2 flaky3_def)
  have r2: "\<forall>j<2. sendCommand flaky3 j (commands batch_repeat ! j) = Inr ([''ok'', ''ok''] ! j)"
    by (simp add: flaky3_def less_Suc_eq numeral_2_eq_2)
  have p: "py_update [] (zip (take 2 (commands batch_repeat)) (map py_strip [''ok'', ''ok''])) =
      [(''show clock'', ''ok'')]"
    unfolding c2 by code_simp
  note t = command_failure_outputs[of 0 batch_repeat flaky3 "[''ok'', ''ok'']" 2 "[]"]
  have w2: "closed_by (final (run_batch batch_repeat [])) 0 \<le> 1"
    using t o2 s2 r2 d2 c2 by simp
  have g: "\<forall>p\<in>set (output_data (final (run_batch batch_repeat []))).
       set (py_keys (command_output (snd p))) \<subseteq> set (commands batch_repeat) \<and>
       length (command_output (snd p)) \<le> length (commands batch_repeat)"
    using t o2 s2 r2 d2 c2 by simp
  obtain en where en: "py_getitem (output_data (final (run_batch batch_repeat []))) ''r3'' = Some en"
    "command_output en = [(''show clock'', ''ok'')]"
    using t u2 o2 s2 r2 d2 c2 p by auto
  have "(''r3'', en) \<in> set (output_data (final (run_batch batch_repeat [])))"
    using en(1) by (rule py_getitem_mem)
  then have w3: "set (py_keys (command_output en)) \<subseteq> set (commands batch_repeat) \<and>
      length (command_output en) \<le> length (commands batch_repeat)"
    using g by fastforce
  show ?thesis using u1 o1 s1 w1 u2 o2 s2 w2 en w3 c1 by simp
qed

text \<open>
  The claim as stated fails in four ways. When the first and only command of \<open>batch_flaky\<close>
  times out, the task ends with the exception and \<open>close\<close> is never called. When the third
  command of \<open>batch_repeat\<close> fails, \<open>command_output\<close> holds one entry, not two, since the two
  commands completed before are the same. With the empty command list of \<open>batch_nocmd\<close> the
  session opens and no command fails, but line 110 raises and \<open>close\<close> is never called. And in
  \<open>batch_again\<close> the first command of the first session to \<open>a\<close> fails, but the second session
  to \<open>a\<close> leaves one entry in the dictionary they share, not none.
\<close>

theorem command_failure_outputs_counterexample:
  "sendCommand flaky 0 ''show version'' = Inl (NetcoreError ''timeout'') \<and>
   future_exception (tasks (final (run_batch batch_flaky [])) ! 0) = Some (NetcoreError ''timeout'') \<and>
   closed_by (final (run_batch batch_flaky [])) 0 = 0 \<and>
   closed_by (final (run_batch batch_flaky [])) 0 \<noteq> 1 \<and>
   sendCommand flaky3 2 ''show version'' = Inl (NetcoreError ''timeout'') \<and>
   sent_by (final (run_batch batch_repeat [])) 0 = [''show clock'', ''show clock'', ''show version''] \<and>
   py_getitem (output_data (final (run_batch batch_repeat []))) ''r3'' =
     Some \<lparr>prompt = ''r3#'', command_output = [(''show clock'', ''ok'')]\<rparr> \<and>
   length [(''show clock'', ''ok'')] \<noteq> 3 - (1::nat) \<and>
   devices batch_nocmd = [''a''] \<and> commands batch_nocmd = [] \<and>
   open_session batch_nocmd 0 ''a'' = Inr router1 \<and>
   sent_by (final (run_batch batch_nocmd [])) 0 = [] \<and>
   closed_by (final (run_batch batch_nocmd [])) 0 = 0 \<and>
   closed_by (final (run_batch batch_nocmd [])) 0 \<noteq> 1 \<and>
   devices batch_again = [''a'', ''a''] \<and> commands batch_again = [''show version''] \<and>
   open_session batch_again 0 ''a'' = Inr flaky \<and>
   sent_by (final (run_batch batch_again [])) 0 = [''show version''] \<and>
   future_exception (tasks (final (run_batch batch_again [])) ! 0) = Some (NetcoreError ''timeout'') \<and>
   py_getitem (output_data (final (run_batch batch_again []))) ''a'' =
     Some \<lparr>prompt = ''router1#'', command_output = [(''show version'', ''Output'')]\<rparr> \<and>
   length [(''show version'', ''Output'')] \<noteq> 1 - (1::nat)"
proof -
  have 1: "sendCommand flaky 0 ''show version'' = Inl (NetcoreError ''timeout'')"
    by (simp add: flaky_def)
  have 2: "future_exception (tasks (final (run_batch batch_flaky [])) ! 0) = Some (NetcoreError ''timeout'')"
    unfolding batch_flaky_def by code_simp
  have 3: "closed_by (final (run_batch batch_flaky [])) 0 = 0"
    unfolding batch_flaky_def by code_simp
  have 4: "sendCommand flaky3 2 ''show version'' = Inl (NetcoreError ''timeout'')"
    by (simp add: flaky3_def)
  have 5: "sent_by (final (run_batch batch_repeat [])) 0 = [''show clock'', ''show clock'', ''show version'']"
    unfolding batch_repeat_def by code_simp
  have 6: "py_getitem (output_data (final (run_batch batch_repeat []))) ''r3'' =
     Some \<lparr>prompt = ''r3#'', command_output = [(''show clock'', ''ok'')]\<rparr>"
    unfolding batch_repeat_def by code_simp
  have 7: "devices batch_nocmd = [''a'']" "commands batch_nocmd = []"
    by (simp_all add: batch_nocmd_def make_run_event_def demo_form_def)
  have 8: "open_session batch_nocmd 0 ''a'' = Inr router1"
    by (simp add: batch_nocmd_def eval_defs)
  have 9: "sent_by (final (run_batch batch_nocmd [])) 0 = []"
    unfolding batch_nocmd_def by code_simp
  have 10: "closed_by (final (run_batch batch_nocmd [])) 0 = 0"
    unfolding batch_nocmd_def by code_simp
  have 11: "devices batch_again = [''a'', ''a'']" "commands batch_again = [''show version'']"
    by (simp_all add: batch_again_def make_run_event_def demo_form_def)
  have 12: "open_session batch_again 0 ''a'' = Inr flaky"
    by (simp add: batch_again_def eval_defs)
  have 13: "sent_by (final (run_batch batch_again [])) 0 = [''show version'']"
    unfolding batch_again_def by code_simp
  have 14: "future_exception (tasks (final (run_batch batch_again [])) ! 0) = Some (NetcoreError ''timeout'')"
    unfolding batch_again_def by code_simp
  have 15: "py_getitem (output_data (final (run_batch batch_again []))) ''a'' =
     Some \<lparr>prompt = ''router1#'', command_output = [(''show version'', ''Output'')]\<rparr>"
    unfolding batch_again_def by code_simp
  show ?thesis using 1 2 3 4 5 6 7 8 9 10 11 12 13 14 15 by simp
qed

subsection \<open>C3: the progress of a fully successful batch\<close>

text \<open>
  Claim C3 says that the increments emitted over a fully successful batch sum to 100. In the
  code they sum to 101, whatever the interleaving: 9 at the start of the pool, the 90 that
  \<open>available_progress\<close> divides among the devices, each of which emits its whole share when
  its task returns without an exception, and 2 after the report.
\<close>

theorem successful_progress_total:
  assumes "length (devices re) \<noteq> 0"
    and "\<forall>i<length (devices re). tasks (final (run_batch re sched)) ! i = Done None"
  shows "total_progress re sched = 101"
  using assms by (rule total_progress_success)

text \<open>One device, one command, everything succeeds: 9 + 9 + 18 + 63 + 2.\<close>

theorem successful_progress_total_witness:
  "length (devices batch_one) = 1 \<and> length (commands batch_one) = 1 \<and>
   tasks (final (run_batch batch_one [])) ! 0 = Done None \<and>
   progress (final (run_batch batch_one [])) = [9, 9, 18, 63, 2] \<and>
   total_progress batch_one [] = 101"
proof -
  have d: "length (devices batch_one) = 1" "length (commands batch_one) = 1"
    by (simp_all add: batch_one_def make_run_event_def demo_form_def)
  have t: "tasks (final (run_batch batch_one [])) ! 0 = Done None"
    by (simp add: batch_one_def router1_def eval_defs upt_rec numeral_eq_Suc)
  have p: "progress (final (run_batch batch_one [])) = [9, 9, 18, 63, 2]"
    by (simp add: batch_one_def router1_def eval_defs upt_rec numeral_eq_Suc)
  have "\<forall>i<length (devices batch_one). tasks (final (run_batch batch_one [])) ! i = Done None"
    using d t by simp
  then have "total_progress batch_one [] = 101"
    using d by (intro successful_progress_total) simp_all
  then show ?thesis using d t p by simp
qed

subsection \<open>C4: errors of a device stay with the device\<close>




subsection \<open>C5: the entry of a device that cannot be reached\<close>

text \<open>
  Claim C5, as amended. A device identifier to which no session opens (a device that is
  listed once and whose session fails to open, or a device listed several times of which
  every session fails to open) still has an entry in the batch result, and that entry holds
  an empty prompt and an empty \<open>command_output\<close> dictionary, whatever the interleaving.
\<close>

theorem failed_open_entry:
  assumes "i < length (devices re)" and "never_opens re (devices re ! i)"
  shows "py_getitem (output_data (final (run_batch re sched))) (devices re ! i) =
           Some \<lparr>prompt = [], command_output = []\<rparr>"
  using fin_never_opens[OF assms(2,1), of sched]
  by (simp add: final_run_batch empty_entry_def)

text \<open>Device \<open>B\<close> of \<open>batch_AB\<close> cannot be reached, device \<open>A\<close> can.\<close>

theorem failed_open_entry_witness:
  "devices batch_AB ! 1 = ''B'' \<and>
   open_session batch_AB 1 ''B'' = Inl (NetcoreError ''unreachable'') \<and>
   py_getitem (output_data (final (run_batch batch_AB []))) ''B'' =
     Some \<lparr>prompt = [], command_output = []\<rparr>"
proof -
  have d: "devices batch_AB = [''A'', ''B'']"
    by (simp add: batch_AB_def make_run_event_def demo_form_def)
  have o: "open_session batch_AB 1 ''B'' = Inl (NetcoreError ''unreachable'')"
    by (simp add: batch_AB_def only_A_def eval_defs)
  have n: "never_opens batch_AB (devices batch_AB ! 1)"
    using o by (auto simp: never_opens_def d less_Suc_eq)
  have "py_getitem (output_data (final (run_batch batch_AB []))) (devices batch_AB ! 1) =
      Some \<lparr>prompt = [], command_output = []\<rparr>"
    using n by (intro failed_open_entry) (simp add: d)
  then show ?thesis using d o by simp
qed

text \<open>
  The claim as stated fails for a device that is listed twice. In \<open>batch_retry\<close> the first
  session to \<open>a\<close> fails to open and the second one works: the entry of \<open>a\<close>, which the two
  tasks share, holds the prompt and the output of the second session.
\<close>

theorem failed_open_entry_counterexample:
  "devices batch_retry ! 0 = ''a'' \<and> open_fails batch_retry 0 \<and>
   py_getitem (output_data (final (run_batch batch_retry []))) ''a'' =
     Some \<lparr>prompt = ''router1#'', command_output = [(''show version'', ''Output'')]\<rparr> \<and>
   py_getitem (output_data (final (run_batch batch_retry []))) ''a'' \<noteq>
     Some \<lparr>prompt = [], command_output = []\<rparr>"
proof -
  have 1: "devices batch_retry ! 0 = ''a''"
    by (simp add: batch_retry_def make_run_event_def demo_form_def)
  have 2: "open_fails batch_retry 0"
    by (simp add: open_fails_def batch_retry_def eval_defs)
  have 3: "py_getitem (output_data (final (run_batch batch_retry []))) ''a'' =
     Some \<lparr>prompt = ''router1#'', command_output = [(''show version'', ''Output'')]\<rparr>"
    unfolding batch_retry_def by code_simp
  show ?thesis using 1 2 3 by simp
qed

subsection \<open>C6: the text report\<close>

text \<open>
  Claim C6. In Text mode \<open>generate_report\<close> writes one file per entry of the result, in
  order. The body of a file is, for each command of the entry in order, the prompt, the
  command, a newline, the output, a newline, a line of 79 dashes and a newline; the file is
  named after the prompt without its last character, followed by an underscore, the date of
  the moment as YYYY-MM-DD and \<open>.txt\<close>, inside the output directory.
\<close>

theorem text_report_written:
  assumes "output_type re = ''Text''"
  shows "written (run_batch re sched) =
     TextFiles
       (map (\<lambda>k. (os_path_join (output_dir (the_form re))
                     (text_filename (snd (output_data (final (run_batch re sched)) ! k))
                        (now (the_world re) k)),
                   text_body (snd (output_data (final (run_batch re sched)) ! k))))
          [0..<length (output_data (final (run_batch re sched)))])"
  using assms by (simp add: final_run_batch generate_report_def write_text_files_eq)

text \<open>
  The example of the specification: the prompt \<open>router1#\<close>, the command
  \<open>show ip int brief\<close> and the output \<open>Output\<close>, on the fourth of November 2026.
\<close>

theorem text_report_written_witness:
  "output_type batch_one = ''Text'' \<and>
   output_data (final (run_batch batch_one [])) =
     [(''10.0.0.1'',
       \<lparr>prompt = ''router1#'', command_output = [(''show ip int brief'', ''Output'')]\<rparr>)] \<and>
   written (run_batch batch_one []) =
     TextFiles
       [(''/out/router1_2026-11-04.txt'',
         ''router1#show ip int brief'' @ [CHR 0x0A] @ ''Output'' @ [CHR 0x0A]
           @ replicate 79 CHR ''-'' @ [CHR 0x0A])]"
proof -
  have t: "output_type batch_one = ''Text''"
    by (simp add: batch_one_def make_run_event_def demo_form_def)
  have od: "output_data (final (run_batch batch_one [])) =
     [(''10.0.0.1'',
       \<lparr>prompt = ''router1#'', command_output = [(''show ip int brief'', ''Output'')]\<rparr>)]"
    unfolding batch_one_def by code_simp
  have n: "now (the_world batch_one) 0 = \<lparr>year = 2026, month = 11, day = 4, hour = 9, minute = 5\<rparr>"
    and o: "output_dir (the_form batch_one) = ''/out''"
    by (simp_all add: batch_one_def make_run_event_def demo_form_def demo_world_def demo_now_def)
  have f: "text_filename \<lparr>prompt = ''router1#'', command_output = [(''show ip int brief'', ''Output'')]\<rparr>
      \<lparr>year = 2026, month = 11, day = 4, hour = 9, minute = 5\<rparr> = ''router1_2026-11-04.txt''"
    by code_simp
  have j: "os_path_join ''/out'' ''router1_2026-11-04.txt'' = ''/out/router1_2026-11-04.txt''"
    by code_simp
  have b: "text_body \<lparr>prompt = ''router1#'', command_output = [(''show ip int brief'', ''Output'')]\<rparr> =
      ''router1#show ip int brief'' @ [CHR 0x0A] @ ''Output'' @ [CHR 0x0A]
        @ replicate 79 CHR ''-'' @ [CHR 0x0A]"
    by (simp add: text_body_def text_section_def separator_line_def newline_def)
  have "written (run_batch batch_one []) =
     TextFiles
       [(''/out/router1_2026-11-04.txt'',
         ''router1#show ip int brief'' @ [CHR 0x0A] @ ''Output'' @ [CHR 0x0A]
           @ replicate 79 CHR ''-'' @ [CHR 0x0A])]"
    using text_report_written[OF t, of "[]"] by (simp add: od n o f j b)
  then show ?thesis using t od by simp
qed

subsection \<open>C7: the rows of the sheet\<close>

text \<open>
  Claim C7, as amended. In tabular mode, when no command of the batch is the string
  \<open>Device\<close>, the rows handed to the workbook have the keys 1, 2, ... in the order of the
  result; in the row of an entry the column \<open>Device\<close> holds the prompt without its last
  character, every command the device completed is a column that holds the captured output,
  and a command the device never reached has no column. The row of a device that failed at
  connect is the single column \<open>Device\<close> with the empty string.
\<close>

theorem table_rows:
  assumes "output_type re \<noteq> ''Text''" and "''Device'' \<notin> set (commands re)"
  shows "\<exists>path rows.
     written (run_batch re sched) = Workbook path ''Snapshot'' rows \<and>
     map fst rows = [1..<Suc (length (output_data (final (run_batch re sched))))] \<and>
     (\<forall>k<length (output_data (final (run_batch re sched))).
        py_getitem (snd (rows ! k)) ''Device'' =
          Some (butlast (prompt (snd (output_data (final (run_batch re sched)) ! k)))) \<and>
        (\<forall>c. c \<noteq> ''Device'' \<longrightarrow>
           py_getitem (snd (rows ! k)) c =
             py_getitem (command_output (snd (output_data (final (run_batch re sched)) ! k))) c) \<and>
        (snd (output_data (final (run_batch re sched)) ! k) = \<lparr>prompt = [], command_output = []\<rparr>
           \<longrightarrow> snd (rows ! k) = [(''Device'', [])]))"
proof -
  let ?od = "output_data (fst (thread_executor re sched))"
  let ?rows = "map (\<lambda>k. (1 + k, table_row (snd (?od ! k)))) [0..<length ?od]"
  have r: "dump_rows 1 ?od [] = ?rows"
    using dump_rows_eq[of "[]" 1 ?od] by simp
  have w: "\<exists>path. written (run_batch re sched) = Workbook path ''Snapshot'' ?rows"
    using assms r by (simp add: final_run_batch generate_report_def Let_def)
  have k: "map fst ?rows = [1..<Suc (length ?od)]"
    by (simp add: comp_def map_Suc_upt del: upt_Suc)
  have g: "good_entry re (snd (?od ! k))" if "k < length ?od" for k
    using fin_inv_entries[of re sched] that by (simp add: inv_entries_def)
  have n: "py_getitem (command_output (snd (?od ! k))) ''Device'' = None" if "k < length ?od" for k
    using g[OF that] assms(2) by (auto simp: good_entry_def py_getitem_None)
  have c: "py_getitem (snd (?rows ! k)) c =
      (case py_getitem (command_output (snd (?od ! k))) c of
         Some out \<Rightarrow> Some out
       | None \<Rightarrow> if c = ''Device'' then Some (butlast (prompt (snd (?od ! k)))) else None)"
    if "k < length ?od" for k c
    using that g[OF that] table_row_column[of "snd (?od ! k)" c] by (simp add: good_entry_def)
  have dv: "py_getitem (snd (?rows ! k)) ''Device'' = Some (butlast (prompt (snd (?od ! k))))"
    if "k < length ?od" for k
    using c[OF that, of "''Device''"] n[OF that] by simp
  have ot: "py_getitem (snd (?rows ! k)) c = py_getitem (command_output (snd (?od ! k))) c"
    if "k < length ?od" "c \<noteq> ''Device''" for k c
    using c[OF that(1), of c] that(2) by (simp split: option.splits)
  have e: "snd (?rows ! k) = [(''Device'', [])]"
    if "k < length ?od" "snd (?od ! k) = \<lparr>prompt = [], command_output = []\<rparr>" for k
    using that by (simp add: table_row_def)
  from w obtain path where "written (run_batch re sched) = Workbook path ''Snapshot'' ?rows"
    by blast
  then show ?thesis
    using k dv ot e unfolding final_run_batch by (intro exI[of _ path] exI[of _ ?rows]) blast
qed

text \<open>
  The example of the specification: \<open>A\<close> answers \<open>X\<close> to \<open>show version\<close>, \<open>B\<close> fails at connect.
\<close>

theorem table_rows_witness:
  "output_type batch_AB \<noteq> ''Text'' \<and> ''Device'' \<notin> set (commands batch_AB) \<and>
   output_data (final (run_batch batch_AB [])) =
     [(''A'', \<lparr>prompt = ''A#'', command_output = [(''show version'', ''X'')]\<rparr>),
      (''B'', \<lparr>prompt = [], command_output = []\<rparr>)] \<and>
   (\<exists>path rows.
      written (run_batch batch_AB []) = Workbook path ''Snapshot'' rows \<and>
      map fst rows = [1, 2] \<and>
      py_getitem (snd (rows ! 0)) ''Device'' = Some ''A'' \<and>
      py_getitem (snd (rows ! 0)) ''show version'' = Some ''X'' \<and>
      snd (rows ! 1) = [(''Device'', [])] \<and>
      py_getitem (snd (rows ! 1)) ''show version'' = None)"
proof -
  have t: "output_type batch_AB \<noteq> ''Text''"
    by (simp add: batch_AB_def make_run_event_def demo_form_def)
  have cm: "''Device'' \<notin> set (commands batch_AB)"
    by (simp add: batch_AB_def make_run_event_def demo_form_def)
  have od: "output_data (final (run_batch batch_AB [])) =
     [(''A'', \<lparr>prompt = ''A#'', command_output = [(''show version'', ''X'')]\<rparr>),
      (''B'', \<lparr>prompt = [], command_output = []\<rparr>)]"
    unfolding batch_AB_def by code_simp
  from table_rows[OF t cm, of "[]"] obtain path rows where
    w: "written (run_batch batch_AB []) = Workbook path ''Snapshot'' rows"
    and k: "map fst rows = [1..<Suc (length (output_data (final (run_batch batch_AB []))))]"
    and r: "\<forall>k<length (output_data (final (run_batch batch_AB []))).
        py_getitem (snd (rows ! k)) ''Device'' =
          Some (butlast (prompt (snd (output_data (final (run_batch batch_AB [])) ! k)))) \<and>
        (\<forall>c. c \<noteq> ''Device'' \<longrightarrow>
           py_getitem (snd (rows ! k)) c =
             py_getitem (command_output (snd (output_data (final (run_batch batch_AB [])) ! k))) c) \<and>
        (snd (output_data (final (run_batch batch_AB [])) ! k) = \<lparr>prompt = [], command_output = []\<rparr>
           \<longrightarrow> snd (rows ! k) = [(''Device'', [])])"
    by blast
  have k': "map fst rows = [1, 2]" using k by (simp add: od upt_rec)
  have l: "0 < length (output_data (final (run_batch batch_AB [])))"
    "1 < length (output_data (final (run_batch batch_AB [])))"
    by (simp_all add: od)
  have r0: "py_getitem (snd (rows ! 0)) ''Device'' =
      Some (butlast (prompt (snd (output_data (final (run_batch batch_AB [])) ! 0))))"
    using r l(1) by blast
  have r0': "py_getitem (snd (rows ! 0)) ''show version'' =
      py_getitem (command_output (snd (output_data (final (run_batch batch_AB [])) ! 0))) ''show version''"
    using r l(1) by auto
  have r1: "snd (output_data (final (run_batch batch_AB [])) ! 1) = \<lparr>prompt = [], command_output = []\<rparr>
      \<longrightarrow> snd (rows ! 1) = [(''Device'', [])]"
    using r l(2) by blast
  have a: "py_getitem (snd (rows ! 0)) ''Device'' = Some ''A''" using r0 by (simp add: od)
  have b: "py_getitem (snd (rows ! 0)) ''show version'' = Some ''X''" using r0' by (simp add: od)
  have c: "snd (rows ! 1) = [(''Device'', [])]" using r1 by (simp add: od)
  have d: "py_getitem (snd (rows ! 1)) ''show version'' = None" using c by simp
  show ?thesis
    by (intro conjI exI[of _ path] exI[of _ rows]) (fact t cm od w k' a b c d)+
qed

text \<open>
  The claim as stated fails when a command is named \<open>Device\<close>: the prompt of \<open>A\<close> is \<open>A#\<close>, and
  the column \<open>Device\<close> of its row holds the output \<open>X\<close> of the command.
\<close>

theorem table_rows_counterexample:
  "commands batch_Device = [''Device''] \<and>
   output_data (final (run_batch batch_Device [])) =
     [(''A'', \<lparr>prompt = ''A#'', command_output = [(''Device'', ''X'')]\<rparr>)] \<and>
   written (run_batch batch_Device []) =
     Workbook ''/out/Snapshot_November 04_09.05.xlsx'' ''Snapshot'' [(1, [(''Device'', ''X'')])] \<and>
   py_getitem [(''Device'', ''X'')] ''Device'' \<noteq> Some (butlast ''A#'')"
proof -
  have 1: "commands batch_Device = [''Device'']"
    by (simp add: batch_Device_def make_run_event_def demo_form_def)
  have 2: "output_data (final (run_batch batch_Device [])) =
     [(''A'', \<lparr>prompt = ''A#'', command_output = [(''Device'', ''X'')]\<rparr>)]"
    unfolding batch_Device_def by code_simp
  have 3: "written (run_batch batch_Device []) =
     Workbook ''/out/Snapshot_November 04_09.05.xlsx'' ''Snapshot'' [(1, [(''Device'', ''X'')])]"
    unfolding batch_Device_def by code_simp
  show ?thesis using 1 2 3 by simp
qed

subsection \<open>C8: the stored output\<close>

text \<open>
  Claim C8, as amended. The text stored under a command key is the captured output with the
  whitespace removed at both ends: what \<open>sendCommand\<close> returned is some whitespace, the
  stored text, and some whitespace again, and the stored text neither starts nor ends with
  whitespace. This holds for every command that the loop of a device listed once completes,
  under the key of the command, until the same command is completed again.
\<close>

theorem stored_output_stripped:
  assumes "i < length (devices re)" and "unique re i" and "commands re \<noteq> []"
    and "open_session re i (devices re ! i) = Inr h"
    and "length raws = m" and "m \<le> length (commands re)"
    and "\<forall>j<m. sendCommand h j (commands re ! j) = Inr (raws ! j)"
    and "stops_at h (commands re) m"
  shows "\<exists>en. py_getitem (output_data (final (run_batch re sched))) (devices re ! i) = Some en \<and>
    (\<forall>j<m. commands re ! j \<notin> set (drop (Suc j) (take m (commands re))) \<longrightarrow>
       (\<exists>stored before after.
          py_getitem (command_output en) (commands re ! j) = Some stored \<and>
          raws ! j = before @ stored @ after \<and>
          list_all py_isspace before \<and> list_all py_isspace after \<and>
          (stored \<noteq> [] \<longrightarrow> \<not> py_isspace (hd stored) \<and> \<not> py_isspace (last stored)) \<and>
          stored = py_strip (raws ! j)))"
proof -
  let ?xs = "take m (commands re)" and ?ys = "map py_strip raws"
  let ?co = "py_update [] (zip ?xs ?ys)"
  have e: "py_getitem (output_data (final (run_batch re sched))) (devices re ! i) =
      Some \<lparr>prompt = handler_prompt h, command_output = ?co\<rparr>"
    using fin_entry[OF assms(2,1), of sched] entry_closed[OF assms(4,3,5,6,7,8)]
    by (simp add: final_run_batch)
  have len: "length ?xs = m" "length ?ys = m" using assms(5,6) by simp_all
  have g: "py_getitem ?co (commands re ! j) = Some (py_strip (raws ! j))"
    if j: "j < m" and n: "commands re ! j \<notin> set (drop (Suc j) ?xs)" for j
  proof -
    have z: "zip ?xs ?ys =
        zip (take j ?xs) (take j ?ys) @ (?xs ! j, ?ys ! j) # zip (drop (Suc j) ?xs) (drop (Suc j) ?ys)"
      using j len by (intro zip_split) simp_all
    have xy: "?xs ! j = commands re ! j" "?ys ! j = py_strip (raws ! j)"
      using j assms(5) by simp_all
    have ni: "commands re ! j \<notin> fst ` set (zip (drop (Suc j) ?xs) (drop (Suc j) ?ys))"
      using n by (auto dest: set_zip_leftD)
    have "py_getitem
        (py_update [] (zip (take j ?xs) (take j ?ys) @ (commands re ! j, py_strip (raws ! j))
           # zip (drop (Suc j) ?xs) (drop (Suc j) ?ys)))
        (commands re ! j) = Some (py_strip (raws ! j))"
      by (rule py_getitem_update_last[OF ni])
    then show ?thesis by (simp only: z xy)
  qed
  have sp: "list_all py_isspace (takeWhile py_isspace r)" for r
    by (simp add: list_all_iff) (meson set_takeWhileD)
  have "\<exists>stored before after.
      py_getitem ?co (commands re ! j) = Some stored \<and> raws ! j = before @ stored @ after \<and>
      list_all py_isspace before \<and> list_all py_isspace after \<and>
      (stored \<noteq> [] \<longrightarrow> \<not> py_isspace (hd stored) \<and> \<not> py_isspace (last stored)) \<and>
      stored = py_strip (raws ! j)"
    if "j < m" "commands re ! j \<notin> set (drop (Suc j) ?xs)" for j
  proof (intro exI conjI)
    show "py_getitem ?co (commands re ! j) = Some (py_strip (raws ! j))" using that by (rule g)
    show "raws ! j = takeWhile py_isspace (raws ! j) @ py_strip (raws ! j)
        @ rev (takeWhile py_isspace (rev (dropWhile py_isspace (raws ! j))))"
      by (rule py_strip_split)
    show "list_all py_isspace (takeWhile py_isspace (raws ! j))" by (rule sp)
    show "list_all py_isspace (rev (takeWhile py_isspace (rev (dropWhile py_isspace (raws ! j)))))"
      using sp[of "rev (dropWhile py_isspace (raws ! j))"] by (simp add: list_all_iff)
    show "py_strip (raws ! j) \<noteq> [] \<longrightarrow>
        \<not> py_isspace (hd (py_strip (raws ! j))) \<and> \<not> py_isspace (last (py_strip (raws ! j)))"
      using py_strip_ends by blast
    show "py_strip (raws ! j) = py_strip (raws ! j)" by simp
  qed
  then show ?thesis using e by simp
qed

text \<open>The device of \<open>batch_padded\<close> returns \<open>up\<close> between blanks; \<open>up\<close> is stored.\<close>

theorem stored_output_stripped_witness:
  "unique batch_padded 0 \<and> open_session batch_padded 0 (devices batch_padded ! 0) = Inr padded \<and>
   sendCommand padded 0 (commands batch_padded ! 0) = Inr ''  up  '' \<and>
   stops_at padded (commands batch_padded) 1 \<and>
   (\<exists>en. py_getitem (output_data (final (run_batch batch_padded []))) ''r1'' = Some en \<and>
      py_getitem (command_output en) ''show clock'' = Some ''up'')"
proof -
  have d: "devices batch_padded = [''r1'']" and c: "commands batch_padded = [''show clock'']"
    by (simp_all add: batch_padded_def make_run_event_def demo_form_def)
  have u: "unique batch_padded 0" by (simp add: unique_def d)
  have o: "open_session batch_padded 0 (devices batch_padded ! 0) = Inr padded"
    by (simp add: batch_padded_def eval_defs)
  have r: "sendCommand padded 0 (commands batch_padded ! 0) = Inr ''  up  ''"
    by (simp add: padded_def)
  have s: "stops_at padded (commands batch_padded) 1" by (simp add: stops_at_def c)
  have p: "py_strip ''  up  '' = ''up''" by code_simp
  have a: "\<forall>j<1. sendCommand padded j (commands batch_padded ! j) = Inr ([''  up  ''] ! j)"
    using r by simp
  have "\<exists>en. py_getitem (output_data (final (run_batch batch_padded [])))
        (devices batch_padded ! 0) = Some en \<and>
      (\<forall>j<1. commands batch_padded ! j \<notin> set (drop (Suc j) (take 1 (commands batch_padded))) \<longrightarrow>
         (\<exists>stored before after.
            py_getitem (command_output en) (commands batch_padded ! j) = Some stored \<and>
            [''  up  ''] ! j = before @ stored @ after \<and>
            list_all py_isspace before \<and> list_all py_isspace after \<and>
            (stored \<noteq> [] \<longrightarrow> \<not> py_isspace (hd stored) \<and> \<not> py_isspace (last stored)) \<and>
            stored = py_strip ([''  up  ''] ! j)))"
    using u o s a c d by (intro stored_output_stripped) simp_all
  then have "\<exists>en. py_getitem (output_data (final (run_batch batch_padded []))) ''r1'' = Some en \<and>
      py_getitem (command_output en) ''show clock'' = Some ''up''"
    using p c d by auto
  then show ?thesis using u o r s by simp
qed

text \<open>
  The claim as stated fails on the same batch: the captured output starts with two blanks,
  removing the trailing whitespace alone would leave them, and the stored text has none.
\<close>

theorem stored_output_stripped_counterexample:
  "sendCommand padded 0 ''show clock'' = Inr ''  up  '' \<and>
   py_rstrip ''  up  '' = ''  up'' \<and>
   py_getitem (output_data (final (run_batch batch_padded []))) ''r1'' =
     Some \<lparr>prompt = ''r1#'', command_output = [(''show clock'', ''up'')]\<rparr> \<and>
   ''up'' \<noteq> py_rstrip ''  up  ''"
proof -
  have 1: "sendCommand padded 0 ''show clock'' = Inr ''  up  ''" by (simp add: padded_def)
  have 2: "py_rstrip ''  up  '' = ''  up''" by code_simp
  have 3: "py_getitem (output_data (final (run_batch batch_padded []))) ''r1'' =
     Some \<lparr>prompt = ''r1#'', command_output = [(''show clock'', ''up'')]\<rparr>"
    unfolding batch_padded_def by code_simp
  show ?thesis using 1 2 3 by simp
qed

subsection \<open>C9: the progress of a batch with a device that cannot be reached\<close>

text \<open>
  Claim C9, as amended. A device whose session fails to open does not spend its slice:
  whatever the interleaving, its task emits exactly one value on the progress signal, the
  increment of line 88 (\<open>available_progress * 0.1\<close>, a tenth of the share of one device), and
  none of the increments of lines 108 and 115. The values emitted over the whole run are the
  9 of \<open>thread_executor\<close>, the increments of the tasks, and the 2 of \<open>run\<close>.
\<close>

theorem failed_open_progress:
  assumes "i < length (devices re)" and "open_fails re i"
  shows "task_progress re sched i = [available_progress re * 0.1] \<and>
    progress (final (run_batch re sched)) = 9 # map snd (emitted re sched) @ [2]"
  using task_progress_open_fails[OF assms] progress_run_batch by simp

text \<open>
  In \<open>batch_AB\<close> the session to \<open>B\<close> fails to open: the task of \<open>A\<close> emits 4.5, 9 and 31.5,
  the task of \<open>B\<close> only 4.5.
\<close>

theorem failed_open_progress_witness:
  "devices batch_AB = [''A'', ''B''] \<and> open_fails batch_AB 1 \<and>
   task_progress batch_AB [] 1 = [4.5] \<and>
   map snd (emitted batch_AB []) = [4.5, 9, 31.5, 4.5] \<and>
   progress (final (run_batch batch_AB [])) = [9, 4.5, 9, 31.5, 4.5, 2]"
proof -
  have d: "devices batch_AB = [''A'', ''B'']"
    by (simp add: batch_AB_def make_run_event_def demo_form_def)
  have o: "open_fails batch_AB 1"
    by (simp add: open_fails_def batch_AB_def only_A_def eval_defs)
  have a: "available_progress batch_AB * 0.1 = 4.5"
    by (simp add: available_progress_def d)
  have e: "map snd (emitted batch_AB []) = [4.5, 9, 31.5, 4.5]"
    by (simp add: emitted_def batch_AB_def only_A_def handler_A_def eval_defs upt_rec numeral_eq_Suc)
  have i: "1 < length (devices batch_AB)" by (simp add: d)
  note t = failed_open_progress[OF i o, of "[]"]
  have t1: "task_progress batch_AB [] 1 = [4.5]" using t a by simp
  have t2: "progress (final (run_batch batch_AB [])) = [9, 4.5, 9, 31.5, 4.5, 2]"
    using t e by simp
  show ?thesis using d o t1 t2 e by simp
qed

text \<open>
  The claim as stated fails on a batch of one device that cannot be reached: the run emits
  9, 9 and 2, which is 20 and not 100.
\<close>

theorem failed_open_progress_counterexample:
  "open_session batch_down 0 ''10.0.0.1'' = Inl (NetcoreError ''unreachable'') \<and>
   progress (final (run_batch batch_down [])) = [9, 9, 2] \<and>
   total_progress batch_down [] = 20 \<and> total_progress batch_down [] < 100"
proof -
  have o: "open_session batch_down 0 ''10.0.0.1'' = Inl (NetcoreError ''unreachable'')"
    by (simp add: batch_down_def eval_defs)
  have p: "progress (final (run_batch batch_down [])) = [9, 9, 2]"
    by (simp add: batch_down_def eval_defs upt_rec numeral_eq_Suc)
  show ?thesis using o p by (simp add: total_progress_def)
qed

subsection \<open>C10: an empty command list\<close>

text \<open>
  Claim C10. When the command list is empty, the task of every device whose session opens
  raises \<open>ZeroDivisionError\<close> at line 110: the prompt has been recorded (it is in the entry
  of a device listed once), no command has been sent and the session has not been closed.
  The error stays in the task: every task of the batch ends, the error is in the log of the
  device when the task is the last one for its identifier, and the report is generated from
  the result.
\<close>

theorem empty_commands_division:
  assumes "i < length (devices re)" and "commands re = []"
    and "open_session re i (devices re ! i) = Inr h"
  shows "tasks (final (run_batch re sched)) ! i = Done (Some ZeroDivisionError) \<and>
    sent_by (final (run_batch re sched)) i = [] \<and>
    closed_by (final (run_batch re sched)) i = 0 \<and>
    (unique re i \<longrightarrow>
       py_getitem (output_data (final (run_batch re sched))) (devices re ! i) =
         Some \<lparr>prompt = handler_prompt h, command_output = []\<rparr>) \<and>
    (\<forall>j<length (devices re). finished (tasks (final (run_batch re sched)) ! j)) \<and>
    (devices re ! i \<notin> set (drop (Suc i) (devices re)) \<longrightarrow>
       (devices re ! i, ZeroDivisionError) \<in> set (errors (run_batch re sched))) \<and>
    written (run_batch re sched) =
      generate_report re (output_data (final (run_batch re sched)))"
proof -
  have r: "the_rest re i (devices re ! i) Queued =
      \<lparr>r_exn = Some ZeroDivisionError,
       r_progress = available_progress re * 0.1 + available_progress re * 0.2,
       r_sent = [], r_closed = 0\<rparr>"
    using assms by (simp add: emit_def rest_L90_def rest_L110_def raised_def)
  have t: "tasks (fst (thread_executor re sched)) ! i = Done (Some ZeroDivisionError)"
    using fin_task[OF assms(1), of sched] r by simp
  have e: "entry_L90 re i (devices re ! i) empty_entry =
      \<lparr>prompt = handler_prompt h, command_output = []\<rparr>"
    using assms by (simp add: entry_L90_def entry_L110_def empty_entry_def)
  have lg: "(devices re ! i, ZeroDivisionError) \<in> set (snd (thread_executor re sched))"
    if "devices re ! i \<notin> set (drop (Suc i) (devices re))"
  proof -
    have "(devices re ! i, 0 + i) \<in> set (submit_all (devices re) 0 [])"
      using assms(1) that by (rule submit_all_last)
    then show ?thesis using t by (auto simp: thread_executor_def Let_def log_mem fin_exec)
  qed
  show ?thesis
    using t fin_sent[OF assms(1), of sched] fin_closed[OF assms(1), of sched] r e lg
      fin_entry[of re i sched] assms(1) all_finished[of _ re sched]
    by (simp add: final_run_batch)
qed

text \<open>
  The commands box of \<open>batch_nocmd\<close> holds one empty line, which line 40 drops; its device
  \<open>a\<close> answers with the prompt \<open>router1#\<close>.
\<close>

theorem empty_commands_division_witness:
  "devices batch_nocmd = [''a''] \<and> commands batch_nocmd = [] \<and>
   open_session batch_nocmd 0 ''a'' = Inr router1 \<and>
   tasks (final (run_batch batch_nocmd [])) ! 0 = Done (Some ZeroDivisionError) \<and>
   sent_by (final (run_batch batch_nocmd [])) 0 = [] \<and>
   closed_by (final (run_batch batch_nocmd [])) 0 = 0 \<and>
   py_getitem (output_data (final (run_batch batch_nocmd []))) ''a'' =
     Some \<lparr>prompt = ''router1#'', command_output = []\<rparr> \<and>
   (''a'', ZeroDivisionError) \<in> set (errors (run_batch batch_nocmd [])) \<and>
   written (run_batch batch_nocmd []) =
     generate_report batch_nocmd (output_data (final (run_batch batch_nocmd [])))"
proof -
  have d: "devices batch_nocmd = [''a'']" and c: "commands batch_nocmd = []"
    by (simp_all add: batch_nocmd_def make_run_event_def demo_form_def)
  have o: "open_session batch_nocmd 0 (devices batch_nocmd ! 0) = Inr router1"
    by (simp add: batch_nocmd_def eval_defs)
  have u: "unique batch_nocmd 0" by (simp add: unique_def d)
  have l: "devices batch_nocmd ! 0 \<notin> set (drop (Suc 0) (devices batch_nocmd))" by (simp add: d)
  have p: "handler_prompt router1 = ''router1#''" by (simp add: router1_def)
  have i: "0 < length (devices batch_nocmd)" by (simp add: d)
  show ?thesis
    using empty_commands_division[OF i c o, of "[]"] u l o d c p by simp
qed

end
